theory Spec2Isabelle
  imports Complex_Main "HOL-Library.AList" "HOL-Library.Signed_Division"
begin

section \<open>Data model (monitor.go, config.go)\<close>

text \<open>
  Go's \<^verbatim>\<open>string\<close> is a byte sequence, as \<^typ>\<open>string\<close> is here. \<^verbatim>\<open>time.Time\<close> is an
  abstract instant. \<^verbatim>\<open>int64\<close> values are integers whose additions wrap to 64 bits
  (\<open>wrap64\<close>) and whose division truncates towards zero (\<open>sdiv\<close>). \<^verbatim>\<open>GroupOrder\<close> and
  \<^verbatim>\<open>Index\<close> are Go \<^verbatim>\<open>int\<close>s that only count groups and list positions.
\<close>

type_synonym time = int

record Check =
  Timestamp :: time
  StatusCode :: int
  ResponseTime :: int
  Success :: bool
  Error :: string

record Instance =
  Group :: string
  URL :: string
  InstanceType :: string
  Cors :: bool
  GroupOrder :: int
  Index :: int
  Checks :: "Check list"

text \<open>
  \<^verbatim>\<open>Config.MaxCheckHistory\<close> is a Go \<^verbatim>\<open>int\<close>. Its only producer in the repository,
  \<^verbatim>\<open>getMaxHistory\<close>, returns a value of at least 1, so the field is a natural number here;
  the negative range, on which \<^verbatim>\<open>make\<close> and the reslice of \<^verbatim>\<open>checkInstance\<close> would panic,
  is not a value the configuration loader can yield.
\<close>

record Config =
  MaxCheckHistory :: nat
  LogLevel :: string

text \<open>
  \<^verbatim>\<open>Monitor.instances\<close> is a slice of pointers. Every pointer occurs once in it: an
  Instance enters the new slice either freshly allocated or taken out of the
  \<^verbatim>\<open>existingInstances\<close> map, which forgets it at that moment. The slice is therefore a list of
  Instance values.
\<close>

record Monitor =
  instances :: "Instance list"
  config :: Config

definition NewMonitor :: "Config \<Rightarrow> Monitor" where
  "NewMonitor cfg = \<lparr>instances = [], config = cfg\<rparr>"

record ApiGroupDetail =
  URLs :: "string list"
  GroupCors :: bool

record InstancesJSON =
  API :: "string \<rightharpoonup> ApiGroupDetail"
  UI :: "string \<rightharpoonup> string list"

text \<open>What a cycle pushes to the subscribers: one \<open>BroadcastUpdate\<close> per call of
  \<^verbatim>\<open>broadcastUpdate\<close>.\<close>

datatype event = BroadcastUpdate

subsection \<open>config.go: getMaxHistory\<close>

text \<open>\<open>atoi\<close> is the result of \<^verbatim>\<open>strconv.Atoi(historyStr)\<close>, \<open>None\<close> for its error.\<close>

definition getMaxHistory :: "string \<Rightarrow> int option \<Rightarrow> nat" where
  "getMaxHistory historyStr atoi =
     (if historyStr = [] then 168
      else case atoi of
        None \<Rightarrow> 168
      | Some history \<Rightarrow> if history < 1 then 168 else nat history)"

section \<open>Ordering Extractor: extractOrderFromJSON\<close>

text \<open>\<^verbatim>\<open>strings.HasPrefix\<close> and \<^verbatim>\<open>strings.Index\<close> of the Go library: the index of the first
  instance of \<open>sub\<close> in \<open>s\<close>, \<open>None\<close> for -1.\<close>

fun hasPrefix :: "string \<Rightarrow> string \<Rightarrow> bool" where
  "hasPrefix s [] = True"
| "hasPrefix [] (c # p) = False"
| "hasPrefix (x # s) (c # p) = (x = c \<and> hasPrefix s p)"

fun strIndex :: "string \<Rightarrow> string \<Rightarrow> nat option" where
  "strIndex [] sub = (if sub = [] then Some 0 else None)"
| "strIndex (x # s) sub =
     (if hasPrefix (x # s) sub then Some 0 else map_option Suc (strIndex s sub))"

definition quote :: "string \<Rightarrow> string" where
  "quote key = CHR 0x22 # key @ [CHR 0x22]"

text \<open>The brace-matching loop, over the bytes from \<open>braceEnd\<close> on; it returns the final
  \<open>braceEnd\<close>.\<close>

fun braceScan :: "string \<Rightarrow> nat \<Rightarrow> nat \<Rightarrow> nat" where
  "braceScan [] braceCount braceEnd = braceEnd"
| "braceScan (c # rest) braceCount braceEnd =
     (if braceCount > 0
      then braceScan rest
             (if c = CHR 0x7B then braceCount + 1
              else if c = CHR 0x7D then braceCount - 1 else braceCount)
             (braceEnd + 1)
      else braceEnd)"

text \<open>
  The inner loop \<^verbatim>\<open>for key := range groups\<close>, over the keys in the order this round of
  iteration visits them, with the running \<open>(earliestPos, earliestKey)\<close>.
\<close>

fun findEarliest ::
  "string \<Rightarrow> nat \<Rightarrow> string list \<Rightarrow> string list \<Rightarrow> nat \<times> string \<Rightarrow> nat \<times> string" where
  "findEarliest sectionJSON pos order [] acc = acc"
| "findEarliest sectionJSON pos order (key # keys) (earliestPos, earliestKey) =
     (if key \<in> set order then findEarliest sectionJSON pos order keys (earliestPos, earliestKey)
      else case strIndex (drop pos sectionJSON) (quote key) of
        None \<Rightarrow> findEarliest sectionJSON pos order keys (earliestPos, earliestKey)
      | Some foundPos \<Rightarrow>
          if foundPos + pos < earliestPos
          then findEarliest sectionJSON pos order keys (foundPos + pos, key)
          else findEarliest sectionJSON pos order keys (earliestPos, earliestKey))"

text \<open>
  The outer loop \<^verbatim>\<open>for len(order) < len(groups)\<close>. \<open>keysAt r\<close> lists the keys of \<^verbatim>\<open>groups\<close> in
  the order the \<open>r\<close>-th run of the inner loop visits them (Go does not fix the iteration order
  of a map, and one round is run per key already ordered); \<open>n\<close> is \<^verbatim>\<open>len(groups)\<close>.
\<close>

function scanOrder ::
  "string \<Rightarrow> (nat \<Rightarrow> string list) \<Rightarrow> nat \<Rightarrow> nat \<Rightarrow> string list \<Rightarrow> string list" where
  "scanOrder sectionJSON keysAt n pos order =
     (if length order < n
      then (case findEarliest sectionJSON pos order (keysAt (length order))
                   (length sectionJSON, []) of
              (earliestPos, earliestKey) \<Rightarrow>
                if earliestKey \<noteq> []
                then scanOrder sectionJSON keysAt n (earliestPos + length earliestKey + 2)
                       (order @ [earliestKey])
                else order)
      else order)"
  by pat_completeness auto
termination
  by (relation "measure (\<lambda>(sectionJSON, keysAt, n, pos, order). n - length order)") auto

declare scanOrder.simps [simp del]

text \<open>
  \<^verbatim>\<open>json.Unmarshal\<close> into \<^verbatim>\<open>map[string]interface{}\<close> belongs to the Go library. It enters as
  the parameter \<open>groupsRange\<close>: \<open>groupsRange sectionJSON r\<close> are the keys of the map decoded
  from \<open>sectionJSON\<close> (no key when decoding fails and the map stays nil), in the order of the
  \<open>r\<close>-th iteration over it.
\<close>

definition sectionOf :: "string \<Rightarrow> nat \<Rightarrow> string" where
  "sectionOf jsonStr braceStart =
     (let braceEnd = braceScan (drop (braceStart + 1) jsonStr) 1 (braceStart + 1)
      in take (braceEnd - braceStart) (drop braceStart jsonStr))"

definition extractOrderFromJSON ::
  "(string \<Rightarrow> nat \<Rightarrow> string list) \<Rightarrow> string \<Rightarrow> string \<Rightarrow> string list" where
  "extractOrderFromJSON groupsRange jsonStr section =
     (case strIndex jsonStr (quote section) of
        None \<Rightarrow> []
      | Some sectionStart \<Rightarrow>
          (case strIndex (drop sectionStart jsonStr) [CHR 0x7B] of
             None \<Rightarrow> []
           | Some braceStart \<Rightarrow>
               (let sectionJSON = sectionOf jsonStr (braceStart + sectionStart)
                in scanOrder sectionJSON (groupsRange sectionJSON)
                     (length (groupsRange sectionJSON 0)) 0 [])))"

section \<open>Reconciler: updateInstances\<close>

text \<open>\<^verbatim>\<open>existingInstances\<close>, a Go map from URL to Instance, as an association list with
  one entry per key: its length is \<^verbatim>\<open>len(existingInstances)\<close>.\<close>

type_synonym existing = "(string \<times> Instance) list"

definition existingInstances :: "Instance list \<Rightarrow> existing" where
  "existingInstances insts = foldl (\<lambda>ex inst. AList.update (URL inst) inst ex) [] insts"

text \<open>
  The body of the two inner loops over the URLs of one group. The API loop and the UI loop
  of the source differ only in the instance type of a new Instance and in the CORS flag
  (the group's flag for API, false for UI), which are the parameters \<open>ty\<close> and \<open>cors\<close>.
\<close>

definition walkURL ::
  "string \<Rightarrow> string \<Rightarrow> bool \<Rightarrow> int \<Rightarrow> existing \<times> Instance list \<Rightarrow> string
     \<Rightarrow> existing \<times> Instance list" where
  "walkURL grp ty cors groupIndex st instanceURL =
     (case st of (ex, updatedInstances) \<Rightarrow>
        (case map_of ex instanceURL of
           Some existing \<Rightarrow>
             (AList.delete instanceURL ex,
              updatedInstances @
                [existing\<lparr>Group := grp, GroupOrder := groupIndex, Cors := cors\<rparr>])
         | None \<Rightarrow>
             (ex,
              updatedInstances @
                [\<lparr>Group = grp, URL = instanceURL, InstanceType = ty, Cors = cors,
                  GroupOrder = groupIndex, Index = 0, Checks = []\<rparr>])))"

fun apiGroups ::
  "InstancesJSON \<Rightarrow> string list \<Rightarrow> existing \<times> Instance list \<times> int
     \<Rightarrow> existing \<times> Instance list \<times> int" where
  "apiGroups data [] st = st"
| "apiGroups data (grp # rest) (ex, updatedInstances, groupIndex) =
     (case API data grp of
        Some groupDetails \<Rightarrow>
          (case foldl (walkURL grp ''api'' (GroupCors groupDetails) groupIndex)
                  (ex, updatedInstances) (URLs groupDetails) of
             (ex', updated') \<Rightarrow> apiGroups data rest (ex', updated', groupIndex + 1))
      | None \<Rightarrow> apiGroups data rest (ex, updatedInstances, groupIndex))"

fun uiGroups ::
  "InstancesJSON \<Rightarrow> string list \<Rightarrow> existing \<times> Instance list \<times> int
     \<Rightarrow> existing \<times> Instance list \<times> int" where
  "uiGroups data [] st = st"
| "uiGroups data (grp # rest) (ex, updatedInstances, groupIndex) =
     (case UI data grp of
        Some urls \<Rightarrow>
          (case foldl (walkURL grp ''ui'' False groupIndex) (ex, updatedInstances) urls of
             (ex', updated') \<Rightarrow> uiGroups data rest (ex', updated', groupIndex + 1))
      | None \<Rightarrow> uiGroups data rest (ex, updatedInstances, groupIndex))"

text \<open>\<^verbatim>\<open>for i, inst := range updatedInstances { inst.Index = i + 1 }\<close>\<close>

definition assignIndex :: "Instance list \<Rightarrow> Instance list" where
  "assignIndex updatedInstances =
     map (\<lambda>(i, inst). inst\<lparr>Index := int i + 1\<rparr>) (enumerate 0 updatedInstances)"

text \<open>
  The outcome of \<^verbatim>\<open>http.Get\<close> followed by \<^verbatim>\<open>io.ReadAll\<close>, and the errors
  \<^verbatim>\<open>updateInstances\<close> returns.
\<close>

datatype read_result = ReadFailed string | Body string
datatype get_result = GetFailed string | Response int read_result

datatype error =
    FetchFailed string
  | UnexpectedStatus int
  | ReadBodyFailed string
  | ParseFailed string

text \<open>
  The part of \<^verbatim>\<open>updateInstances\<close> after the payload is decoded: the merge, the counts and
  the new list. It returns the new \<^verbatim>\<open>m.instances\<close>, \<^verbatim>\<open>addedCount\<close> and \<^verbatim>\<open>removedCount\<close>.
\<close>

definition mergeInstances ::
  "InstancesJSON \<Rightarrow> string list \<Rightarrow> string list \<Rightarrow> Instance list
     \<Rightarrow> Instance list \<times> int \<times> int" where
  "mergeInstances data apiOrder uiOrder insts =
     (case uiGroups data uiOrder (apiGroups data apiOrder (existingInstances insts, [], 0)) of
        (ex, updatedInstances, groupIndex) \<Rightarrow>
          (assignIndex updatedInstances,
           int (length updatedInstances) - (int (length insts) - int (length ex)),
           int (length ex)))"

text \<open>
  \<open>unmarshal\<close> is \<^verbatim>\<open>json.Unmarshal(body, &data)\<close> of the Go library: the decoded
  \<^verbatim>\<open>InstancesJSON\<close> or the error text. The result is the returned error, the Monitor
  afterwards, and the broadcasts made.
\<close>

definition updateInstances ::
  "(string \<Rightarrow> nat \<Rightarrow> string list) \<Rightarrow> (string \<Rightarrow> string + InstancesJSON) \<Rightarrow> get_result
     \<Rightarrow> Monitor \<Rightarrow> error option \<times> Monitor \<times> event list" where
  "updateInstances groupsRange unmarshal resp m =
     (case resp of
        GetFailed err \<Rightarrow> (Some (FetchFailed err), m, [])
      | Response statusCode rd \<Rightarrow>
          if statusCode \<noteq> 200 then (Some (UnexpectedStatus statusCode), m, [])
          else (case rd of
                  ReadFailed err \<Rightarrow> (Some (ReadBodyFailed err), m, [])
                | Body body \<Rightarrow>
                    (case unmarshal body of
                       Inl err \<Rightarrow> (Some (ParseFailed err), m, [])
                     | Inr data \<Rightarrow>
                         (case mergeInstances data
                                 (extractOrderFromJSON groupsRange body ''api'')
                                 (extractOrderFromJSON groupsRange body ''ui'')
                                 (instances m) of
                            (updatedInstances, addedCount, removedCount) \<Rightarrow>
                              (None, m\<lparr>instances := updatedInstances\<rparr>,
                               if addedCount > 0 \<or> removedCount > 0
                               then [BroadcastUpdate] else [])))))"

text \<open>The Monitor a call of \<^verbatim>\<open>updateInstances\<close> leaves behind.\<close>

definition monitorOf :: "error option \<times> Monitor \<times> event list \<Rightarrow> Monitor" where
  "monitorOf result = fst (snd result)"

section \<open>Prober: checkInstance and checkAll\<close>

text \<open>
  The outcome of \<^verbatim>\<open>client.Get\<close>. A failed request returns a \<^verbatim>\<open>*url.Error\<close> (the Go library
  documents of \<^verbatim>\<open>Client.Do\<close> that any returned error is one; a URL that does not parse is
  refused by \<^verbatim>\<open>NewRequest\<close> with the \<^verbatim>\<open>*url.Error\<close> of \<^verbatim>\<open>url.Parse\<close>). Its text,
  \<^verbatim>\<open>err.Error()\<close>, is \<^verbatim>\<open>fmt.Sprintf("%s %q: %s", e.Op, e.URL, e.Err)\<close>: the operation, a space,
  the URL as \<^verbatim>\<open>%q\<close> prints it, a colon, a space and the text of the cause. The operation is
  \<^verbatim>\<open>Get\<close> for a request that was attempted and \<^verbatim>\<open>parse\<close> for a URL that was refused.
  \<open>TransportError\<close> carries the three parts, \<open>HttpResponse\<close> the status code of a completed
  response.
\<close>

datatype url_op = OpGet | OpParse

datatype http_result = TransportError url_op string string | HttpResponse int

definition urlErrorText :: "url_op \<Rightarrow> string \<Rightarrow> string \<Rightarrow> string" where
  "urlErrorText operation quotedURL cause =
     (case operation of OpGet \<Rightarrow> ''Get'' | OpParse \<Rightarrow> ''parse'') @ '' '' @ quotedURL @ '': '' @ cause"

definition checkURL :: "Instance \<Rightarrow> string" where
  "checkURL instance =
     (if InstanceType instance = ''api'' then URL instance @ ''/search/?s=kanye''
      else URL instance)"

text \<open>
  The first half of \<^verbatim>\<open>checkInstance\<close>: the Check it builds. \<open>clientGet\<close> is \<^verbatim>\<open>client.Get\<close>,
  \<open>start\<close> is \<^verbatim>\<open>time.Now()\<close> and \<open>elapsed\<close> is \<^verbatim>\<open>time.Since(start).Milliseconds()\<close>.
\<close>

definition probe :: "(string \<Rightarrow> http_result) \<Rightarrow> time \<Rightarrow> int \<Rightarrow> Instance \<Rightarrow> Check" where
  "probe clientGet start elapsed instance =
     (let check = \<lparr>Timestamp = start, StatusCode = 0, ResponseTime = 0, Success = False,
                   Error = []\<rparr>
      in case clientGet (checkURL instance) of
           TransportError operation quotedURL cause \<Rightarrow>
             check\<lparr>Success := False, Error := urlErrorText operation quotedURL cause,
                   ResponseTime := elapsed\<rparr>
         | HttpResponse statusCode \<Rightarrow>
             check\<lparr>StatusCode := statusCode, ResponseTime := elapsed,
                   Success := (statusCode \<ge> 200 \<and> statusCode < 300)\<rparr>)"

text \<open>The second half: the append and the reslice to the last \<^verbatim>\<open>MaxCheckHistory\<close> entries.\<close>

definition appendCheck :: "nat \<Rightarrow> Check list \<Rightarrow> Check \<Rightarrow> Check list" where
  "appendCheck maxCheckHistory checks check =
     (let checks' = checks @ [check]
      in if length checks' > maxCheckHistory
         then drop (length checks' - maxCheckHistory) checks'
         else checks')"

definition checkInstance ::
  "Config \<Rightarrow> (string \<Rightarrow> http_result) \<Rightarrow> time \<Rightarrow> int \<Rightarrow> Instance \<Rightarrow> Instance" where
  "checkInstance cfg clientGet start elapsed instance =
     instance\<lparr>Checks :=
       appendCheck (MaxCheckHistory cfg) (Checks instance) (probe clientGet start elapsed instance)\<rparr>"

text \<open>Successive check cycles as one Instance sees them: one \<^verbatim>\<open>checkInstance\<close> per cycle,
  each with its own client, start time and elapsed time.\<close>

definition runChecks ::
  "Config \<Rightarrow> ((string \<Rightarrow> http_result) \<times> time \<times> int) list \<Rightarrow> Instance \<Rightarrow> Instance" where
  "runChecks cfg ps inst =
     foldl (\<lambda>i p. case p of (clientGet, start, elapsed) \<Rightarrow>
              checkInstance cfg clientGet start elapsed i) inst ps"

text \<open>
  \<^verbatim>\<open>checkAll\<close> starts one goroutine per Instance and waits for all of them. Each goroutine
  writes its own Instance only, so the completion order does not show in the result;
  \<open>env i\<close> gives the HTTP client, the start time and the elapsed time of the \<open>i\<close>-th one.
\<close>

definition checkAll ::
  "(nat \<Rightarrow> (string \<Rightarrow> http_result) \<times> time \<times> int) \<Rightarrow> Monitor \<Rightarrow> Monitor \<times> event list" where
  "checkAll env m =
     (m\<lparr>instances :=
          map (\<lambda>(i, inst). case env i of (clientGet, start, elapsed) \<Rightarrow>
                 checkInstance (config m) clientGet start elapsed inst)
              (enumerate 0 (instances m))\<rparr>,
      [BroadcastUpdate])"

section \<open>Snapshot builder: GetInstancesData\<close>

definition wrap64 :: "int \<Rightarrow> int" where
  "wrap64 k = signed_take_bit 63 k"

subsection \<open>float64 arithmetic\<close>

text \<open>
  A \<^verbatim>\<open>float64\<close> value is the real number it stands for, and every conversion, quotient and
  product of the source is the exact result rounded to \<^verbatim>\<open>float64\<close>: to the nearest number
  with a 53-bit significand, a tie going to the even significand (IEEE 754 binary64, the
  arithmetic of Go). \<open>floorLog2 n\<close> is the position of the highest set bit of \<open>n\<close>,
  \<open>binaryExponent x\<close> the exponent \<open>e\<close> with \<open>2\<^sup>e \<le> x < 2\<^sup>e\<^sup>+\<^sup>1\<close> of a positive \<open>x\<close>, and
  \<open>roundPositive x\<close> rounds the significand \<open>x / 2\<^sup>e\<^sup>-\<^sup>5\<^sup>2\<close>, which lies between \<open>2\<^sup>5\<^sup>2\<close> and
  \<open>2\<^sup>5\<^sup>3\<close>, to an integer. The exponent range of \<^verbatim>\<open>float64\<close> is not modelled: the values rounded
  below are 0 or lie between \<open>2\<^sup>-\<^sup>6\<^sup>3\<close> and \<open>2\<^sup>7\<^sup>0\<close>, where no overflow and no subnormal number
  occurs.
\<close>

fun floorLog2 :: "nat \<Rightarrow> nat" where
  "floorLog2 n = (if n < 2 then 0 else Suc (floorLog2 (n div 2)))"

declare floorLog2.simps [simp del]

definition binaryExponent :: "real \<Rightarrow> int" where
  "binaryExponent x =
     (if 1 \<le> x then int (floorLog2 (nat \<lfloor>x\<rfloor>))
      else - int (floorLog2 (nat \<lceil>1 / x\<rceil> - 1) + 1))"

definition roundHalfEven :: "real \<Rightarrow> int" where
  "roundHalfEven m =
     (let f = \<lfloor>m\<rfloor>; d = m - of_int f
      in if d < 1 / 2 then f else if 1 / 2 < d then f + 1 else if even f then f else f + 1)"

definition roundPositive :: "real \<Rightarrow> real" where
  "roundPositive x =
     (let e = binaryExponent x - 52
      in if 0 \<le> e then of_int (roundHalfEven (x / 2 ^ nat e)) * 2 ^ nat e
         else of_int (roundHalfEven (x * 2 ^ nat (- e))) / 2 ^ nat (- e))"

definition roundFloat64 :: "real \<Rightarrow> real" where
  "roundFloat64 x =
     (if x = 0 then 0 else if 0 < x then roundPositive x else - roundPositive (- x))"

subsection \<open>calculateUptime, calculateAvgResponseTime, GetInstancesData\<close>

text \<open>\<^verbatim>\<open>(float64(successful) / float64(len(checks))) * 100\<close>: two conversions, a quotient and a
  product, each rounded.\<close>

definition calculateUptime :: "Check list \<Rightarrow> real" where
  "calculateUptime checks =
     (if length checks = 0 then 0
      else roundFloat64
             (roundFloat64
                (roundFloat64
                   (real (foldl (\<lambda>successful check. if Success check then successful + 1 else successful)
                            (0::nat) checks))
                 / roundFloat64 (real (length checks)))
              * 100))"

definition calculateAvgResponseTime :: "Check list \<Rightarrow> int" where
  "calculateAvgResponseTime checks =
     (if length checks = 0 then 0
      else foldl (\<lambda>total check. wrap64 (total + ResponseTime check)) 0 checks
           sdiv int (length checks))"

record InstanceData =
  dGroup :: string
  dURL :: string
  dInstanceType :: string
  dCors :: bool
  dGroupOrder :: int
  dIndex :: int
  dChecks :: "Check list"
  Uptime :: real
  AvgResponseTime :: int
  LastCheck :: "Check option"

definition instanceData :: "Instance \<Rightarrow> InstanceData" where
  "instanceData instance =
     \<lparr>dGroup = Group instance, dURL = URL instance, dInstanceType = InstanceType instance,
      dCors = Cors instance, dGroupOrder = GroupOrder instance, dIndex = Index instance,
      dChecks = Checks instance,
      Uptime = calculateUptime (Checks instance),
      AvgResponseTime = calculateAvgResponseTime (Checks instance),
      LastCheck = (if length (Checks instance) > 0
                   then Some (Checks instance ! (length (Checks instance) - 1)) else None)\<rparr>"

definition GetInstancesData :: "Monitor \<Rightarrow> InstanceData list" where
  "GetInstancesData m = map instanceData (instances m)"

section \<open>The walk of a reconciliation, in the words of the specification\<close>

text \<open>
  The specification describes the merge as a walk: API groups in recovered order, then UI
  groups in recovered order, the URLs of a group in listed order, one counter numbering the
  groups met. The definitions of this section follow those words, not the code; the theorems
  below relate \<^verbatim>\<open>updateInstances\<close> to them. An \<open>Occurrence\<close> is one URL met by the walk, with
  the group, the section's instance type, the CORS flag and the group number it is met under.
\<close>

record Occurrence =
  oGroup :: string
  oURL :: string
  oType :: string
  oCors :: bool
  oOrder :: int

fun apiWalk :: "InstancesJSON \<Rightarrow> string list \<Rightarrow> int \<Rightarrow> Occurrence list" where
  "apiWalk data [] groupIndex = []"
| "apiWalk data (grp # rest) groupIndex =
     (case API data grp of
        Some groupDetails \<Rightarrow>
          map (\<lambda>u. \<lparr>oGroup = grp, oURL = u, oType = ''api'', oCors = GroupCors groupDetails,
                    oOrder = groupIndex\<rparr>) (URLs groupDetails)
          @ apiWalk data rest (groupIndex + 1)
      | None \<Rightarrow> apiWalk data rest groupIndex)"

fun uiWalk :: "InstancesJSON \<Rightarrow> string list \<Rightarrow> int \<Rightarrow> Occurrence list" where
  "uiWalk data [] groupIndex = []"
| "uiWalk data (grp # rest) groupIndex =
     (case UI data grp of
        Some urls \<Rightarrow>
          map (\<lambda>u. \<lparr>oGroup = grp, oURL = u, oType = ''ui'', oCors = False,
                    oOrder = groupIndex\<rparr>) urls
          @ uiWalk data rest (groupIndex + 1)
      | None \<Rightarrow> uiWalk data rest groupIndex)"

definition specWalk :: "InstancesJSON \<Rightarrow> string list \<Rightarrow> string list \<Rightarrow> Occurrence list" where
  "specWalk data apiOrder uiOrder =
     apiWalk data apiOrder 0
     @ uiWalk data uiOrder (int (length (filter (\<lambda>grp. API data grp \<noteq> None) apiOrder)))"

text \<open>Within one section, two occurrences have the same group number when they have the
  same group name, and the later one a larger number otherwise.\<close>

definition sameOrLater :: "Occurrence \<Rightarrow> Occurrence \<Rightarrow> bool" where
  "sameOrLater a b =
     (if oGroup a = oGroup b then oOrder a = oOrder b else oOrder a < oOrder b)"

text \<open>A new Endpoint with empty history, and a tracked Endpoint with its mutable fields
  updated.\<close>

definition freshInstance :: "Occurrence \<Rightarrow> Instance" where
  "freshInstance occ =
     \<lparr>Group = oGroup occ, URL = oURL occ, InstanceType = oType occ, Cors = oCors occ,
      GroupOrder = oOrder occ, Index = 0, Checks = []\<rparr>"

definition carryInstance :: "Instance \<Rightarrow> Occurrence \<Rightarrow> Instance" where
  "carryInstance existing occ =
     existing\<lparr>Group := oGroup occ, GroupOrder := oOrder occ, Cors := oCors occ\<rparr>"

text \<open>The Endpoints of a walk, given which Endpoint is tracked under which URL: a tracked
  Endpoint is carried once, at the first occurrence of its URL.\<close>

fun specPlace :: "(string \<rightharpoonup> Instance) \<Rightarrow> Occurrence list \<Rightarrow> Instance list" where
  "specPlace tracked [] = []"
| "specPlace tracked (occ # rest) =
     (case tracked (oURL occ) of
        Some existing \<Rightarrow> carryInstance existing occ
      | None \<Rightarrow> freshInstance occ)
     # specPlace (tracked(oURL occ := None)) rest"

text \<open>The Endpoint the registry looks up under a URL: the last one in the list that has
  it.\<close>

definition lastTracked :: "Instance list \<Rightarrow> string \<Rightarrow> Instance option" where
  "lastTracked insts u = find (\<lambda>inst. URL inst = u) (rev insts)"

section \<open>Example payloads\<close>

text \<open>
  Payloads of the configuration source, with what the Go library decodes from them:
  \<open>exampleUnmarshal\<close> is \<^verbatim>\<open>json.Unmarshal\<close> into \<^verbatim>\<open>InstancesJSON\<close> on these payloads (a
  section that a payload does not have stays a nil map), and \<open>exampleGroups\<close> gives the keys
  of the object each section text decodes to, the same order in every round. In
  \<open>payloadEscaped\<close> and \<open>payloadEscapedTwice\<close> the group name \<^verbatim>\<open>a/b\<close> is written with the
  escape \<^verbatim>\<open>\/\<close> that JSON allows for the solidus. In \<open>payloadNested\<close> an API group has the
  name \<^verbatim>\<open>ui\<close>.
\<close>

definition payloadTwice :: string where
  \<open>payloadTwice = ''{"api":{"g":{"urls":["https://a.io","https://a.io"],"cors":true}}}''\<close>

definition payloadOnce :: string where
  \<open>payloadOnce = ''{"api":{"g":{"urls":["https://a.io"],"cors":true}}}''\<close>

definition payloadBoth :: string where
  \<open>payloadBoth = ''{"api":{"g":{"urls":["https://a.io","https://b.io"],"cors":true}}}''\<close>

definition payloadEscaped :: string where
  \<open>payloadEscaped =
     ''{"api":{"a'' @ [CHR 0x5C] @ ''/b":{"urls":["https://a.io"],"cors":true}}}''\<close>

definition payloadGroups :: string where
  \<open>payloadGroups =
     ''{"api":{"beta":{"urls":["https://a.io","https://b.io"],"cors":true},''
     @ ''"alpha":{"urls":["https://c.io"],"cors":false}},''
     @ ''"ui":{"web":["https://w.io","https://a.io"]}}''\<close>

definition payloadEscapedTwice :: string where
  \<open>payloadEscapedTwice =
     ''{"api":{"a'' @ [CHR 0x5C]
     @ ''/b":{"urls":["https://a.io","https://a.io"],"cors":true}}}''\<close>

definition payloadNested :: string where
  \<open>payloadNested =
     ''{"api":{"ui":{"urls":["https://a.io"],"cors":true}},"ui":{"web":["https://w.io"]}}''\<close>

definition dataGroups :: InstancesJSON where
  "dataGroups =
     \<lparr>API = [''beta'' \<mapsto> \<lparr>URLs = [''https://a.io'', ''https://b.io''], GroupCors = True\<rparr>,
             ''alpha'' \<mapsto> \<lparr>URLs = [''https://c.io''], GroupCors = False\<rparr>],
      UI = [''web'' \<mapsto> [''https://w.io'', ''https://a.io'']]\<rparr>"

definition exampleUnmarshal :: "string \<Rightarrow> string + InstancesJSON" where
  "exampleUnmarshal body =
     (if body = payloadTwice then
        Inr \<lparr>API = [''g'' \<mapsto> \<lparr>URLs = [''https://a.io'', ''https://a.io''], GroupCors = True\<rparr>],
             UI = Map.empty\<rparr>
      else if body = payloadOnce then
        Inr \<lparr>API = [''g'' \<mapsto> \<lparr>URLs = [''https://a.io''], GroupCors = True\<rparr>],
             UI = Map.empty\<rparr>
      else if body = payloadBoth then
        Inr \<lparr>API = [''g'' \<mapsto> \<lparr>URLs = [''https://a.io'', ''https://b.io''], GroupCors = True\<rparr>],
             UI = Map.empty\<rparr>
      else if body = payloadEscaped then
        Inr \<lparr>API = [''a/b'' \<mapsto> \<lparr>URLs = [''https://a.io''], GroupCors = True\<rparr>],
             UI = Map.empty\<rparr>
      else if body = payloadEscapedTwice then
        Inr \<lparr>API = [''a/b'' \<mapsto> \<lparr>URLs = [''https://a.io'', ''https://a.io''], GroupCors = True\<rparr>],
             UI = Map.empty\<rparr>
      else if body = payloadNested then
        Inr \<lparr>API = [''ui'' \<mapsto> \<lparr>URLs = [''https://a.io''], GroupCors = True\<rparr>],
             UI = [''web'' \<mapsto> [''https://w.io'']]\<rparr>
      else if body = payloadGroups then Inr dataGroups
      else Inl ''invalid character'')"

definition exampleGroups :: "string \<Rightarrow> nat \<Rightarrow> string list" where
  \<open>exampleGroups sectionJSON r =
     (if sectionJSON = ''{"g":{"urls":["https://a.io","https://a.io"],"cors":true}}''
         \<or> sectionJSON = ''{"g":{"urls":["https://a.io"],"cors":true}}''
         \<or> sectionJSON = ''{"g":{"urls":["https://a.io","https://b.io"],"cors":true}}''
      then [''g'']
      else if sectionJSON = ''{"a'' @ [CHR 0x5C] @ ''/b":{"urls":["https://a.io"],"cors":true}}''
      then [''a/b'']
      else if sectionJSON = ''{"beta":{"urls":["https://a.io","https://b.io"],"cors":true},''
                             @ ''"alpha":{"urls":["https://c.io"],"cors":false}}''
      then [''alpha'', ''beta'']
      else if sectionJSON = ''{"web":["https://w.io","https://a.io"]}''
      then [''web'']
      else if sectionJSON = ''{"a'' @ [CHR 0x5C]
                             @ ''/b":{"urls":["https://a.io","https://a.io"],"cors":true}}''
      then [''a/b'']
      else if sectionJSON = ''{"ui":{"urls":["https://a.io"],"cors":true}}''
      then [''ui'']
      else if sectionJSON = ''{"urls":["https://a.io"],"cors":true}''
      then [''cors'', ''urls'']
      else if sectionJSON = ''{"web":["https://w.io"]}''
      then [''web'']
      else [])\<close>

definition exampleConfig :: Config where
  "exampleConfig = \<lparr>MaxCheckHistory = 168, LogLevel = ''info''\<rparr>"

text \<open>One check cycle in which the first probe gets a response and every other one times
  out.\<close>

definition exampleEnv :: "nat \<Rightarrow> (string \<Rightarrow> http_result) \<times> time \<times> int" where
  "exampleEnv i =
     (if i = 0 then (\<lambda>u. HttpResponse 200, 100, 5)
      else (\<lambda>u. TransportError OpGet (quote u) ''context deadline exceeded'', 100, 30000))"

text \<open>The two Checks that cycle records.\<close>

definition exampleOk :: Check where
  "exampleOk =
     \<lparr>Timestamp = 100, StatusCode = 200, ResponseTime = 5, Success = True, Error = []\<rparr>"

definition exampleTimeout :: Check where
  \<open>exampleTimeout =
     \<lparr>Timestamp = 100, StatusCode = 0, ResponseTime = 30000, Success = False,
      Error = ''Get "https://a.io/search/?s=kanye": context deadline exceeded''\<rparr>\<close>

text \<open>A history of 100 Checks, 57 of them successful.\<close>

definition exampleHistory :: "Check list" where
  "exampleHistory = replicate 57 exampleOk @ replicate 43 exampleTimeout"

text \<open>The registry of a new Monitor after reconciling \<open>payloadTwice\<close> and running one check
  cycle.\<close>

definition twiceRegistry :: Monitor where
  "twiceRegistry =
     fst (checkAll exampleEnv
       (monitorOf (updateInstances exampleGroups exampleUnmarshal
          (Response 200 (Body payloadTwice)) (NewMonitor exampleConfig))))"

text \<open>The registry of a new Monitor after reconciling \<open>payloadOnce\<close> and running one check
  cycle.\<close>

definition onceRegistry :: Monitor where
  "onceRegistry =
     fst (checkAll exampleEnv
       (monitorOf (updateInstances exampleGroups exampleUnmarshal
          (Response 200 (Body payloadOnce)) (NewMonitor exampleConfig))))"

section \<open>Bounded history\<close>

lemma getMaxHistory_ge_1: "1 \<le> getMaxHistory historyStr atoi"
  by (auto simp add: getMaxHistory_def split: option.split)

lemma length_appendCheck_le: "0 < n \<Longrightarrow> length (appendCheck n cs c) \<le> n"
  by (auto simp add: appendCheck_def Let_def)

lemma appendCheck_drop:
  "appendCheck n cs c = drop (Suc (length cs) - n) (cs @ [c])"
  by (simp add: appendCheck_def Let_def)

lemma appendCheck_full: "0 < n \<Longrightarrow> length cs = n \<Longrightarrow> appendCheck n cs c = tl cs @ [c]"
  by (cases cs) (simp_all add: appendCheck_def Let_def)

lemma appendCheck_room: "length cs < n \<Longrightarrow> appendCheck n cs c = cs @ [c]"
  by (simp add: appendCheck_def Let_def)

lemma appendCheck_after_drop:
  "appendCheck n (drop (length xs - n) xs) c = drop (Suc (length xs) - n) (xs @ [c])"
proof -
  let ?k = "length xs - n"
  have "appendCheck n (drop ?k xs) c = drop (Suc (length xs - ?k) - n) (drop ?k (xs @ [c]))"
    by (simp add: appendCheck_drop)
  also have "\<dots> = drop (Suc (length xs - ?k) - n + ?k) (xs @ [c])"
    by (simp only: drop_drop)
  also have "Suc (length xs - ?k) - n + ?k = Suc (length xs) - n"
    by arith
  finally show ?thesis .
qed

lemma foldl_appendCheck:
  "length cs \<le> n \<Longrightarrow>
   foldl (appendCheck n) cs new = drop (length (cs @ new) - n) (cs @ new)"
proof (induction new rule: rev_induct)
  case Nil
  then show ?case by simp
next
  case (snoc c new)
  have "foldl (appendCheck n) cs (new @ [c])
      = appendCheck n (drop (length (cs @ new) - n) (cs @ new)) c"
    using snoc by simp
  also have "\<dots> = drop (Suc (length (cs @ new)) - n) ((cs @ new) @ [c])"
    by (rule appendCheck_after_drop)
  finally show ?case by simp
qed

lemma checkInstance_frame:
  "URL (checkInstance cfg g s e inst) = URL inst"
  "InstanceType (checkInstance cfg g s e inst) = InstanceType inst"
  "Checks (checkInstance cfg g s e inst) = appendCheck (MaxCheckHistory cfg) (Checks inst) (probe g s e inst)"
  by (simp_all add: checkInstance_def)

lemma probe_cong:
  "URL a = URL b \<Longrightarrow> InstanceType a = InstanceType b \<Longrightarrow> probe g s e a = probe g s e b"
  by (simp add: probe_def checkURL_def)

lemma runChecks_frame:
  "URL (runChecks cfg ps inst) = URL inst \<and> InstanceType (runChecks cfg ps inst) = InstanceType inst"
  by (induction ps arbitrary: inst) (auto simp add: runChecks_def checkInstance_frame)

lemma runChecks_Checks:
  "Checks (runChecks cfg ps inst) = foldl (appendCheck (MaxCheckHistory cfg)) (Checks inst)
      (map (\<lambda>(clientGet, start, elapsed). probe clientGet start elapsed inst) ps)"
proof (induction ps rule: rev_induct)
  case Nil
  then show ?case by (simp add: runChecks_def)
next
  case (snoc p ps)
  obtain g s e where p: "p = (g, s, e)" by (cases p)
  have "runChecks cfg (ps @ [p]) inst = checkInstance cfg g s e (runChecks cfg ps inst)"
    by (simp add: runChecks_def p)
  moreover have "probe g s e (runChecks cfg ps inst) = probe g s e inst"
    using runChecks_frame by (intro probe_cong) auto
  ultimately show ?case using snoc by (simp add: checkInstance_frame p)
qed

text \<open>
  Claim C2. Whenever \<^verbatim>\<open>MaxCheckHistory\<close> is at least 1 (what \<^verbatim>\<open>getMaxHistory\<close> yields), the
  history of an Instance has at most \<^verbatim>\<open>MaxCheckHistory\<close> entries after a check; a check on a
  full history drops exactly the oldest entry and keeps the others in order, followed by the
  new one; a check on a history with room only appends; and after any number of checks the
  history is the last \<^verbatim>\<open>MaxCheckHistory\<close> entries of everything recorded, oldest first.
\<close>

theorem history_bounded_fifo:
  assumes "0 < MaxCheckHistory cfg"
  shows "length (Checks (checkInstance cfg clientGet start elapsed inst)) \<le> MaxCheckHistory cfg
    \<and> (length (Checks inst) = MaxCheckHistory cfg \<longrightarrow>
         Checks (checkInstance cfg clientGet start elapsed inst)
           = tl (Checks inst) @ [probe clientGet start elapsed inst])
    \<and> (length (Checks inst) < MaxCheckHistory cfg \<longrightarrow>
         Checks (checkInstance cfg clientGet start elapsed inst)
           = Checks inst @ [probe clientGet start elapsed inst])
    \<and> (length (Checks inst) \<le> MaxCheckHistory cfg \<longrightarrow>
         (let all = Checks inst @ map (\<lambda>(clientGet, start, elapsed). probe clientGet start elapsed inst) ps;
              after = Checks (runChecks cfg ps inst)
          in length after \<le> MaxCheckHistory cfg
             \<and> after = drop (length all - MaxCheckHistory cfg) all))"
proof -
  let ?all = "Checks inst @ map (\<lambda>(clientGet, start, elapsed). probe clientGet start elapsed inst) ps"
  have run: "Checks (runChecks cfg ps inst) = drop (length ?all - MaxCheckHistory cfg) ?all"
    if "length (Checks inst) \<le> MaxCheckHistory cfg"
    using that by (simp only: runChecks_Checks foldl_appendCheck)
  have "length (drop (length ?all - MaxCheckHistory cfg) ?all) \<le> MaxCheckHistory cfg"
    by simp
  with run show ?thesis
    using assms
    by (simp add: checkInstance_frame length_appendCheck_le appendCheck_full appendCheck_room
        Let_def del: length_drop length_append length_map)
qed

theorem history_bounded_fifo_witness:
  "(0::nat) < MaxCheckHistory \<lparr>MaxCheckHistory = 2, LogLevel = ''info''\<rparr>
   \<and> Checks (checkInstance \<lparr>MaxCheckHistory = 2, LogLevel = ''info''\<rparr> (\<lambda>u. HttpResponse 200) 30 7
        \<lparr>Group = ''g'', URL = ''u'', InstanceType = ''ui'', Cors = False, GroupOrder = 0, Index = 1,
         Checks = [\<lparr>Timestamp = 10, StatusCode = 200, ResponseTime = 5, Success = True, Error = []\<rparr>,
                   \<lparr>Timestamp = 20, StatusCode = 500, ResponseTime = 6, Success = False, Error = []\<rparr>]\<rparr>)
     = [\<lparr>Timestamp = 20, StatusCode = 500, ResponseTime = 6, Success = False, Error = []\<rparr>,
        \<lparr>Timestamp = 30, StatusCode = 200, ResponseTime = 7, Success = True, Error = []\<rparr>]
   \<and> Checks (checkInstance \<lparr>MaxCheckHistory = 2, LogLevel = ''info''\<rparr> (\<lambda>u. HttpResponse 200) 30 7
        \<lparr>Group = ''g'', URL = ''u'', InstanceType = ''ui'', Cors = False, GroupOrder = 0, Index = 1,
         Checks = [\<lparr>Timestamp = 20, StatusCode = 500, ResponseTime = 6, Success = False, Error = []\<rparr>]\<rparr>)
     = [\<lparr>Timestamp = 20, StatusCode = 500, ResponseTime = 6, Success = False, Error = []\<rparr>,
        \<lparr>Timestamp = 30, StatusCode = 200, ResponseTime = 7, Success = True, Error = []\<rparr>]
   \<and> length (Checks (runChecks \<lparr>MaxCheckHistory = 2, LogLevel = ''info''\<rparr>
        [(\<lambda>u. HttpResponse 200, 10, 5), (\<lambda>u. HttpResponse 500, 20, 6), (\<lambda>u. TransportError OpGet (quote u) ''timeout'', 30, 7)]
        \<lparr>Group = ''g'', URL = ''u'', InstanceType = ''ui'', Cors = False, GroupOrder = 0, Index = 1,
         Checks = []\<rparr>)) \<le> 2"
  using history_bounded_fifo [of "\<lparr>MaxCheckHistory = 2, LogLevel = ''info''\<rparr>" "\<lambda>u. HttpResponse 200" 30 7
        "\<lparr>Group = ''g'', URL = ''u'', InstanceType = ''ui'', Cors = False, GroupOrder = 0, Index = 1,
         Checks = [\<lparr>Timestamp = 10, StatusCode = 200, ResponseTime = 5, Success = True, Error = []\<rparr>,
                   \<lparr>Timestamp = 20, StatusCode = 500, ResponseTime = 6, Success = False, Error = []\<rparr>]\<rparr>" "[]"]
    history_bounded_fifo [of "\<lparr>MaxCheckHistory = 2, LogLevel = ''info''\<rparr>" "\<lambda>u. HttpResponse 200" 30 7
        "\<lparr>Group = ''g'', URL = ''u'', InstanceType = ''ui'', Cors = False, GroupOrder = 0, Index = 1,
         Checks = [\<lparr>Timestamp = 20, StatusCode = 500, ResponseTime = 6, Success = False, Error = []\<rparr>]\<rparr>" "[]"]
    history_bounded_fifo [of "\<lparr>MaxCheckHistory = 2, LogLevel = ''info''\<rparr>" "\<lambda>u. HttpResponse 200" 30 7
        "\<lparr>Group = ''g'', URL = ''u'', InstanceType = ''ui'', Cors = False, GroupOrder = 0, Index = 1,
         Checks = []\<rparr>" "[(\<lambda>u. HttpResponse 200, 10, 5), (\<lambda>u. HttpResponse 500, 20, 6), (\<lambda>u. TransportError OpGet (quote u) ''timeout'', 30, 7)]"]
  by (simp add: probe_def checkURL_def Let_def)

section \<open>Probe\<close>

lemma last_appendCheck: "0 < n \<Longrightarrow> last (appendCheck n cs c) = c"
  by (simp add: appendCheck_drop)

text \<open>
  Claim C6. The request of a probe goes to the URL of the Instance followed by
  \<^verbatim>\<open>/search/?s=kanye\<close> when its type is \<^verbatim>\<open>api\<close>, and to the URL itself when its type is
  \<^verbatim>\<open>ui\<close>; what the probe records depends on the client's answer for that target only. With
  room for at least one entry, the Check recorded last has, on a transport error,
  \<^verbatim>\<open>Success = false\<close>, \<^verbatim>\<open>StatusCode = 0\<close> and the text of the error, which is not empty; on a
  completed response it has \<^verbatim>\<open>Success\<close> exactly for a status code from 200 up to, not
  including, 300, the status code itself, and no error text.
\<close>

theorem probe_outcome:
  assumes "0 < MaxCheckHistory cfg"
  shows "(InstanceType inst = ''api'' \<longrightarrow> checkURL inst = URL inst @ ''/search/?s=kanye'')
    \<and> (InstanceType inst = ''ui'' \<longrightarrow> checkURL inst = URL inst)
    \<and> (clientGet (checkURL inst) = clientGet' (checkURL inst) \<longrightarrow>
         checkInstance cfg clientGet start elapsed inst = checkInstance cfg clientGet' start elapsed inst)
    \<and> (let c = last (Checks (checkInstance cfg clientGet start elapsed inst)) in
         (\<forall>operation quotedURL cause.
            clientGet (checkURL inst) = TransportError operation quotedURL cause \<longrightarrow>
            \<not> Success c \<and> StatusCode c = 0
            \<and> Error c = urlErrorText operation quotedURL cause \<and> Error c \<noteq> [])
       \<and> (\<forall>statusCode. clientGet (checkURL inst) = HttpResponse statusCode \<longrightarrow>
            (Success c \<longleftrightarrow> 200 \<le> statusCode \<and> statusCode < 300)
            \<and> StatusCode c = statusCode \<and> Error c = []))"
  using assms
  by (simp add: checkInstance_def last_appendCheck Let_def probe_def checkURL_def
      urlErrorText_def)

theorem probe_outcome_witness:
  \<open>(0::nat) < MaxCheckHistory \<lparr>MaxCheckHistory = 168, LogLevel = ''info''\<rparr>
   \<and> checkURL \<lparr>Group = ''g'', URL = ''https://a.example'', InstanceType = ''api'', Cors = True,
                GroupOrder = 0, Index = 1, Checks = []\<rparr> = ''https://a.example/search/?s=kanye''
   \<and> Checks (checkInstance \<lparr>MaxCheckHistory = 168, LogLevel = ''info''\<rparr>
        (\<lambda>u. if u = ''https://a.example/search/?s=kanye'' then HttpResponse 204
             else TransportError OpGet (quote u) ''dial tcp: lookup a.example: no such host'')
        10 5 \<lparr>Group = ''g'', URL = ''https://a.example'', InstanceType = ''api'', Cors = True,
                GroupOrder = 0, Index = 1, Checks = []\<rparr>)
     = [\<lparr>Timestamp = 10, StatusCode = 204, ResponseTime = 5, Success = True, Error = []\<rparr>]
   \<and> Checks (checkInstance \<lparr>MaxCheckHistory = 168, LogLevel = ''info''\<rparr>
        (\<lambda>u. if u = ''https://a.example/search/?s=kanye'' then HttpResponse 204
             else TransportError OpGet (quote u) ''dial tcp: lookup a.example: no such host'')
        10 5 \<lparr>Group = ''g'', URL = ''https://a.example'', InstanceType = ''ui'', Cors = False,
                GroupOrder = 0, Index = 1, Checks = []\<rparr>)
     = [\<lparr>Timestamp = 10, StatusCode = 0, ResponseTime = 5, Success = False,
         Error = ''Get "https://a.example": dial tcp: lookup a.example: no such host''\<rparr>]\<close>
  using probe_outcome [of "\<lparr>MaxCheckHistory = 168, LogLevel = ''info''\<rparr>"
        "\<lparr>Group = ''g'', URL = ''https://a.example'', InstanceType = ''api'', Cors = True,
                GroupOrder = 0, Index = 1, Checks = []\<rparr>"
        "\<lambda>u. if u = ''https://a.example/search/?s=kanye'' then HttpResponse 204
             else TransportError OpGet (quote u) ''dial tcp: lookup a.example: no such host''"
        "\<lambda>u. HttpResponse 204" 10 5]
     probe_outcome [of "\<lparr>MaxCheckHistory = 168, LogLevel = ''info''\<rparr>"
        "\<lparr>Group = ''g'', URL = ''https://a.example'', InstanceType = ''ui'', Cors = False,
                GroupOrder = 0, Index = 1, Checks = []\<rparr>"
        "\<lambda>u. if u = ''https://a.example/search/?s=kanye'' then HttpResponse 204
             else TransportError OpGet (quote u) ''dial tcp: lookup a.example: no such host''"
        "\<lambda>u. TransportError OpGet (quote u) ''dial tcp: lookup a.example: no such host''" 10 5]
  by (simp add: checkInstance_def appendCheck_def probe_def checkURL_def Let_def
      urlErrorText_def quote_def)

section \<open>Fetch and parse failures\<close>

text \<open>
  Claim C4. A reconciliation whose fetch fails (failed request, status code outside 200..299,
  unreadable body) or whose payload does not decode returns an error, leaves the Monitor as
  it was and broadcasts nothing; and whenever \<^verbatim>\<open>updateInstances\<close> returns an error, the
  Monitor is unchanged.
\<close>

theorem failed_fetch_keeps_registry:
  "((\<exists>err. resp = GetFailed err)
      \<or> (\<exists>statusCode rd. resp = Response statusCode rd \<and> \<not> (200 \<le> statusCode \<and> statusCode < 300))
      \<or> (\<exists>err. resp = Response 200 (ReadFailed err))
      \<or> (\<exists>body err. resp = Response 200 (Body body) \<and> unmarshal body = Inl err)
     \<longrightarrow> (\<exists>err. updateInstances groupsRange unmarshal resp m = (Some err, m, [])))
   \<and> (\<forall>err m' events. updateInstances groupsRange unmarshal resp m = (Some err, m', events)
         \<longrightarrow> m' = m \<and> events = [])"
  by (auto simp add: updateInstances_def split: get_result.splits read_result.splits sum.splits prod.splits if_splits)

theorem failed_fetch_keeps_registry_witness:
  "updateInstances (\<lambda>s r. []) (\<lambda>body. Inl ''unexpected end of JSON input'')
      (Response 200 (Body ''{''))
      \<lparr>instances = [\<lparr>Group = ''g'', URL = ''u'', InstanceType = ''ui'', Cors = False,
                      GroupOrder = 0, Index = 1, Checks = []\<rparr>],
       config = \<lparr>MaxCheckHistory = 168, LogLevel = ''info''\<rparr>\<rparr>
    = (Some (ParseFailed ''unexpected end of JSON input''),
       \<lparr>instances = [\<lparr>Group = ''g'', URL = ''u'', InstanceType = ''ui'', Cors = False,
                      GroupOrder = 0, Index = 1, Checks = []\<rparr>],
        config = \<lparr>MaxCheckHistory = 168, LogLevel = ''info''\<rparr>\<rparr>, [])
   \<and> (\<exists>err. updateInstances (\<lambda>s r. []) (\<lambda>body. Inl ''unexpected end of JSON input'')
      (Response 503 (Body []))
      \<lparr>instances = [\<lparr>Group = ''g'', URL = ''u'', InstanceType = ''ui'', Cors = False,
                      GroupOrder = 0, Index = 1, Checks = []\<rparr>],
       config = \<lparr>MaxCheckHistory = 168, LogLevel = ''info''\<rparr>\<rparr>
    = (Some err,
       \<lparr>instances = [\<lparr>Group = ''g'', URL = ''u'', InstanceType = ''ui'', Cors = False,
                      GroupOrder = 0, Index = 1, Checks = []\<rparr>],
        config = \<lparr>MaxCheckHistory = 168, LogLevel = ''info''\<rparr>\<rparr>, []))"
proof -
  let ?m = "\<lparr>instances = [\<lparr>Group = ''g'', URL = ''u'', InstanceType = ''ui'', Cors = False,
                      GroupOrder = 0, Index = 1, Checks = []\<rparr>],
       config = \<lparr>MaxCheckHistory = 168, LogLevel = ''info''\<rparr>\<rparr>"
  let ?um = "\<lambda>body::string. Inl ''unexpected end of JSON input'' :: string + InstancesJSON"
  have a: "\<exists>err. updateInstances (\<lambda>s r. []) ?um (Response 200 (Body ''{'')) ?m = (Some err, ?m, [])"
    using failed_fetch_keeps_registry [of "Response 200 (Body ''{'')" ?um "\<lambda>s r. []" ?m] by simp
  have b: "\<exists>err. updateInstances (\<lambda>s r. []) ?um (Response 503 (Body [])) ?m = (Some err, ?m, [])"
    using failed_fetch_keeps_registry [of "Response 503 (Body [])" ?um "\<lambda>s r. []" ?m] by simp
  from a have "updateInstances (\<lambda>s r. []) ?um (Response 200 (Body ''{'')) ?m
      = (Some (ParseFailed ''unexpected end of JSON input''), ?m, [])"
    by (simp add: updateInstances_def)
  with b show ?thesis by simp
qed

section \<open>Derived metrics\<close>

lemma count_successful:
  "foldl (\<lambda>successful check. if Success check then successful + 1 else successful) k checks
     = k + length (filter Success checks)"
  by (induction checks arbitrary: k) simp_all

lemma wrap64_id: "0 \<le> k \<Longrightarrow> k < 2 ^ 63 \<Longrightarrow> wrap64 k = k"
  unfolding wrap64_def by (rule signed_take_bit_int_eq_self) simp_all

lemma total_response_time:
  "0 \<le> t \<Longrightarrow> \<forall>c \<in> set checks. 0 \<le> ResponseTime c \<Longrightarrow>
   t + sum_list (map ResponseTime checks) < 2 ^ 63 \<Longrightarrow>
   foldl (\<lambda>total check. wrap64 (total + ResponseTime check)) t checks
     = t + sum_list (map ResponseTime checks)"
proof (induction checks arbitrary: t)
  case Nil
  then show ?case by simp
next
  case (Cons c checks)
  have nonneg: "0 \<le> sum_list (map ResponseTime checks)"
    using Cons.prems(2) by (intro sum_list_nonneg) auto
  have c: "0 \<le> ResponseTime c" using Cons.prems(2) by simp
  have w: "wrap64 (t + ResponseTime c) = t + ResponseTime c"
    using Cons.prems(1,3) c nonneg by (intro wrap64_id) simp_all
  show ?case
    using Cons.IH [of "t + ResponseTime c"] Cons.prems c w by (simp add: add.assoc)
qed

lemma sdiv_nonneg: "0 \<le> (a::int) \<Longrightarrow> 0 < b \<Longrightarrow> a sdiv b = a div b"
  by (cases "a = 0") (simp_all add: signed_divide_int_def)

lemma floorLog2_bounds: "0 < n \<Longrightarrow> 2 ^ floorLog2 n \<le> n \<and> n < 2 ^ Suc (floorLog2 n)"
proof (induction n rule: floorLog2.induct)
  case (1 n)
  show ?case
  proof (cases "n < 2")
    case True
    with "1.prems" have "n = 1" by simp
    then show ?thesis by (simp add: floorLog2.simps [of "Suc 0"])
  next
    case False
    then have half: "0 < n div 2" by simp
    from "1.IH" [OF False half]
    have lo: "2 ^ floorLog2 (n div 2) \<le> n div 2"
      and hi: "n div 2 < 2 ^ Suc (floorLog2 (n div 2))" by simp_all
    have "2 * 2 ^ floorLog2 (n div 2) \<le> 2 * (n div 2)" using lo by simp
    also have "\<dots> \<le> n" by simp
    finally have a: "2 ^ Suc (floorLog2 (n div 2)) \<le> n" by simp
    from hi have "Suc (n div 2) \<le> 2 ^ Suc (floorLog2 (n div 2))" by simp
    then have "2 * Suc (n div 2) \<le> 2 * 2 ^ Suc (floorLog2 (n div 2))" by simp
    moreover have "n < 2 * Suc (n div 2)" by simp
    ultimately have b: "n < 2 ^ Suc (Suc (floorLog2 (n div 2)))" by simp
    from False a b show ?thesis by (simp add: floorLog2.simps [of n])
  qed
qed

lemma binaryExponent_bounds:
  assumes "0 < x"
  shows "2 powi binaryExponent x \<le> x \<and> x < 2 powi (binaryExponent x + 1)"
proof (cases "1 \<le> x")
  case True
  let ?F = "nat \<lfloor>x\<rfloor>"
  from True have F: "0 < ?F" by simp
  have ex: "binaryExponent x = int (floorLog2 ?F)" using True by (simp add: binaryExponent_def)
  from floorLog2_bounds [OF F]
  have lo: "2 ^ floorLog2 ?F \<le> ?F" and hi: "?F < 2 ^ Suc (floorLog2 ?F)" by simp_all
  have "real ?F \<le> x" using True by simp
  moreover have "(2::real) ^ floorLog2 ?F \<le> real ?F"
    using lo by (metis of_nat_le_iff of_nat_numeral of_nat_power)
  ultimately have a: "(2::real) ^ floorLog2 ?F \<le> x" by (rule order_trans [rotated])
  from hi have "Suc ?F \<le> 2 ^ Suc (floorLog2 ?F)" by simp
  then have "real (Suc ?F) \<le> (2::real) ^ Suc (floorLog2 ?F)"
    by (metis of_nat_le_iff of_nat_numeral of_nat_power)
  moreover have "x < real (Suc ?F)" using True by simp linarith
  ultimately have b: "x < (2::real) ^ Suc (floorLog2 ?F)" by simp
  have "int (floorLog2 ?F) + 1 = int (Suc (floorLog2 ?F))" by simp
  with a b show ?thesis unfolding ex by (simp only: power_int_of_nat)
next
  case False
  with assms have x: "0 < x" "x < 1" by simp_all
  define y where "y = nat \<lceil>1 / x\<rceil>"
  define c where "c = floorLog2 (y - 1)"
  from x have inv: "1 < 1 / x" by simp
  then have "0 \<le> \<lceil>1 / x\<rceil>" by linarith
  then have yc: "real y = of_int \<lceil>1 / x\<rceil>" by (simp add: y_def)
  from ceiling_correct [of "1 / x"]
  have up: "1 / x \<le> real y" and dn: "real y - 1 < 1 / x" unfolding yc by simp_all
  from up inv have "real 1 < real y" by simp
  then have y2: "2 \<le> y" by (simp only: of_nat_less_iff)
  then have y1: "0 < y - 1" by simp
  have ex: "binaryExponent x = - int (c + 1)"
    using False by (simp add: binaryExponent_def y_def c_def)
  from floorLog2_bounds [OF y1]
  have lo: "2 ^ c \<le> y - 1" and hi: "y - 1 < 2 ^ Suc c" unfolding c_def by simp_all
  have P: "0 < (2::real) ^ Suc c" "0 < (2::real) ^ c" by simp_all
  from hi y2 have "y \<le> 2 ^ Suc c" by linarith
  then have "real y \<le> real (2 ^ Suc c)" by (simp only: of_nat_le_iff)
  then have "real y \<le> 2 ^ Suc c" by simp
  with up have "1 / x \<le> 2 ^ Suc c" by linarith
  then have "1 \<le> 2 ^ Suc c * x" by (simp only: pos_divide_le_eq [OF x(1)])
  then have "1 \<le> x * 2 ^ Suc c" by (simp only: mult.commute)
  then have a: "1 / 2 ^ Suc c \<le> x" by (simp only: pos_divide_le_eq [OF P(1)])
  from lo y2 have "2 ^ c + 1 \<le> y" by linarith
  then have "real (2 ^ c + 1) \<le> real y" by (simp only: of_nat_le_iff)
  then have "2 ^ c + 1 \<le> real y" by simp
  with dn have "2 ^ c < 1 / x" by linarith
  then have "2 ^ c * x < 1" by (simp only: pos_less_divide_eq [OF x(1)])
  then have "x * 2 ^ c < 1" by (simp only: mult.commute)
  then have b: "x < 1 / 2 ^ c" by (simp only: pos_less_divide_eq [OF P(2)])
  have p1: "(2::real) powi (- int (c + 1)) = 1 / 2 ^ Suc c"
    unfolding Suc_eq_plus1 by (simp only: power_int_minus power_int_of_nat inverse_eq_divide)
  have "- int (c + 1) + 1 = - int c" by simp
  then have "(2::real) powi (- int (c + 1) + 1) = 2 powi (- int c)" by (simp only:)
  then have p2: "(2::real) powi (- int (c + 1) + 1) = 1 / 2 ^ c"
    by (simp only: power_int_minus power_int_of_nat inverse_eq_divide)
  from a b show ?thesis unfolding ex p1 p2 by (rule conjI)
qed

lemma roundPositive_powi:
  "roundPositive x =
     of_int (roundHalfEven (x / 2 powi (binaryExponent x - 52))) * 2 powi (binaryExponent x - 52)"
  by (simp add: roundPositive_def Let_def power_int_def power_inverse field_simps)

lemma roundHalfEven_error: "\<bar>of_int (roundHalfEven m) - m\<bar> \<le> 1 / 2"
  unfolding roundHalfEven_def Let_def by (auto simp add: abs_le_iff)

lemma roundHalfEven_of_int [simp]: "roundHalfEven (of_int z) = z"
  by (simp add: roundHalfEven_def)

lemma roundHalfEven_of_nat [simp]: "roundHalfEven (real k) = int k"
  using roundHalfEven_of_int [of "int k"] by simp

lemma mantissa_range:
  assumes "0 < x"
  shows "2 ^ 52 \<le> x / 2 powi (binaryExponent x - 52)
    \<and> x / 2 powi (binaryExponent x - 52) < 2 ^ 53"
proof -
  let ?ex = "binaryExponent x"
  have split: "(2::real) powi ?ex = 2 powi (?ex - 52) * 2 ^ 52"
    using power_int_add [of "2::real" "?ex - 52" 52] by simp
  have s: "?ex + 1 = ?ex - 52 + 53" by simp
  have split': "(2::real) powi (?ex + 1) = 2 powi (?ex - 52) * 2 ^ 53"
    unfolding s by (subst power_int_add) simp_all
  have pos: "0 < (2::real) powi (?ex - 52)" by (simp add: zero_less_power_int)
  from binaryExponent_bounds [OF assms] show ?thesis
    unfolding split split' using pos by (simp add: field_simps)
qed

lemma roundPositive_error:
  assumes "0 < x"
  shows "\<bar>roundPositive x - x\<bar> \<le> x / 2 ^ 53"
proof -
  let ?P = "(2::real) powi (binaryExponent x - 52)"
  let ?m = "x / ?P"
  have pos: "0 < ?P" by (simp add: zero_less_power_int)
  from mantissa_range [OF assms] have m: "2 ^ 52 \<le> ?m" by simp
  have "roundPositive x - x = (of_int (roundHalfEven ?m) - ?m) * ?P"
    using pos by (simp add: roundPositive_powi field_simps)
  then have "\<bar>roundPositive x - x\<bar> = \<bar>of_int (roundHalfEven ?m) - ?m\<bar> * ?P"
    using pos by (simp add: abs_mult)
  also have "\<dots> \<le> 1 / 2 * ?P"
    using roundHalfEven_error [of ?m] pos by (intro mult_right_mono) simp_all
  also have "\<dots> \<le> x / 2 ^ 53"
  proof -
    from m pos have "2 ^ 52 * ?P \<le> x" by (simp add: field_simps)
    then show ?thesis by simp
  qed
  finally show ?thesis .
qed

lemma roundFloat64_error: "0 \<le> x \<Longrightarrow> \<bar>roundFloat64 x - x\<bar> \<le> x / 2 ^ 53"
  using roundPositive_error [of x] by (cases "x = 0") (simp_all add: roundFloat64_def)

lemma roundFloat64_nat:
  assumes "k < 2 ^ 53"
  shows "roundFloat64 (real k) = real k"
proof (cases "k = 0")
  case True
  then show ?thesis by (simp add: roundFloat64_def)
next
  case False
  then have k: "0 < k" by simp
  have ex: "binaryExponent (real k) = int (floorLog2 k)"
    using k by (simp add: binaryExponent_def)
  from floorLog2_bounds [OF k] assms have "(2::nat) ^ floorLog2 k < 2 ^ 53" by simp
  then have j: "floorLog2 k < 53" by (rule power_less_imp_less_exp [rotated]) simp
  define d where "d = 52 - floorLog2 k"
  have e: "binaryExponent (real k) - 52 = - int d" using j by (simp add: ex d_def)
  have rp: "roundPositive (real k) =
      (if 0 \<le> - int d then of_int (roundHalfEven (real k / 2 ^ nat (- int d))) * 2 ^ nat (- int d)
       else of_int (roundHalfEven (real k * 2 ^ nat (- (- int d)))) / 2 ^ nat (- (- int d)))"
    by (simp only: roundPositive_def Let_def e)
  have "real k * 2 ^ d = real (k * 2 ^ d)" by simp
  then have r: "roundHalfEven (real k * 2 ^ d) = int (k * 2 ^ d)"
    by (simp only: roundHalfEven_of_nat)
  have "roundPositive (real k) = real k"
  proof (cases "d = 0")
    case True
    then show ?thesis unfolding rp by simp
  next
    case nz: False
    then have "roundPositive (real k) = of_int (roundHalfEven (real k * 2 ^ d)) / 2 ^ d"
      unfolding rp by simp
    also have "\<dots> = real (k * 2 ^ d) / 2 ^ d" by (simp only: r of_int_of_nat_eq)
    also have "\<dots> = real k" by simp
    finally show ?thesis .
  qed
  with k show ?thesis by (simp add: roundFloat64_def)
qed

lemma calculateUptime_eq:
  "calculateUptime checks =
     (if checks = [] then 0
      else roundFloat64
             (roundFloat64 (roundFloat64 (real (length (filter Success checks)))
                            / roundFloat64 (real (length checks))) * 100))"
  by (simp add: calculateUptime_def count_successful)

lemma calculateUptime_rounded:
  assumes "checks \<noteq> []" "length checks < 2 ^ 53"
  shows "calculateUptime checks
     = roundFloat64 (roundFloat64 (real (length (filter Success checks)) / real (length checks))
                     * 100)"
proof -
  have "length (filter Success checks) \<le> length checks" by simp
  from this assms(2) have "length (filter Success checks) < 2 ^ 53" by (rule le_less_trans)
  then show ?thesis
    using assms by (simp only: calculateUptime_eq roundFloat64_nat if_False)
qed

lemma calculateUptime_error:
  assumes "checks \<noteq> []" "length checks < 2 ^ 53"
  shows "\<bar>calculateUptime checks
          - 100 * real (length (filter Success checks)) / real (length checks)\<bar>
     \<le> 100 * real (length (filter Success checks)) / real (length checks) / 2 ^ 51"
proof -
  define t where "t = real (length (filter Success checks)) / real (length checks)"
  define q where "q = roundFloat64 t"
  have t: "0 \<le> t" by (simp add: t_def)
  from roundFloat64_error [OF t] have qt: "\<bar>q - t\<bar> \<le> t / 2 ^ 53" by (simp only: q_def)
  have small: "t / 2 ^ 53 \<le> t" using t by (simp add: field_simps)
  have q: "0 \<le> q" "q \<le> 2 * t" using qt small by linarith+
  then have "0 \<le> q * 100" by simp
  from roundFloat64_error [OF this]
  have "\<bar>roundFloat64 (q * 100) - q * 100\<bar> \<le> q * 100 / 2 ^ 53" .
  also have "\<dots> \<le> 200 * t / 2 ^ 53" using q(2) by simp
  finally have u: "\<bar>roundFloat64 (q * 100) - q * 100\<bar> \<le> 200 * t / 2 ^ 53" .
  have "\<bar>roundFloat64 (q * 100) - 100 * t\<bar> \<le> 300 * t / 2 ^ 53"
    using qt u by linarith
  also have "\<dots> \<le> 100 * t / 2 ^ 51" using t by simp
  finally have "\<bar>roundFloat64 (q * 100) - 100 * t\<bar> \<le> 100 * t / 2 ^ 51" .
  then show ?thesis
    unfolding calculateUptime_rounded [OF assms] q_def t_def by simp
qed

lemma calculateAvgResponseTime_eq:
  assumes "checks \<noteq> []" "\<forall>c \<in> set checks. 0 \<le> ResponseTime c"
    "sum_list (map ResponseTime checks) < 2 ^ 63"
  shows "calculateAvgResponseTime checks
     = sum_list (map ResponseTime checks) div int (length checks)"
proof -
  have "0 \<le> sum_list (map ResponseTime checks)"
    using assms(2) by (intro sum_list_nonneg) auto
  then show ?thesis
    using assms total_response_time [of 0 checks]
    by (simp add: calculateAvgResponseTime_def sdiv_nonneg)
qed

text \<open>
  Claim C9, as amended. Every entry of \<^verbatim>\<open>GetInstancesData\<close> carries the
  history of its Instance. Its uptime is 0 for an empty history; for a history of fewer than
  \<open>2\<^sup>5\<^sup>3\<close> checks it is the quotient of the number of successful checks by the number of
  checks, rounded to \<^verbatim>\<open>float64\<close>, times 100, rounded to \<^verbatim>\<open>float64\<close> again, which differs from
  100 times the number of successful checks divided by the number of checks by at most the
  \<open>2\<^sup>5\<^sup>1\<close>-th part of that value. Its average response time is 0 for an empty history and
  otherwise (for response times that are not negative and whose sum fits \<^verbatim>\<open>int64\<close>) the sum
  of the response times divided by the number of checks, rounded down; its last check is the
  newest entry of the history, and none for an empty history.
\<close>

theorem snapshot_metrics:
  assumes "i < length (instances m)"
  shows "(let checks = Checks (instances m ! i); v = GetInstancesData m ! i;
              exact = 100 * real (length (filter Success checks)) / real (length checks) in
      dChecks v = checks
      \<and> (checks = [] \<longrightarrow> Uptime v = 0)
      \<and> (checks \<noteq> [] \<and> length checks < 2 ^ 53 \<longrightarrow>
           Uptime v
             = roundFloat64
                 (roundFloat64 (real (length (filter Success checks)) / real (length checks))
                  * 100)
           \<and> \<bar>Uptime v - exact\<bar> \<le> exact / 2 ^ 51)
      \<and> (checks = [] \<longrightarrow> AvgResponseTime v = 0)
      \<and> (checks \<noteq> [] \<and> (\<forall>c \<in> set checks. 0 \<le> ResponseTime c)
           \<and> sum_list (map ResponseTime checks) < 2 ^ 63 \<longrightarrow>
           AvgResponseTime v = sum_list (map ResponseTime checks) div int (length checks))
      \<and> LastCheck v = (if checks = [] then None else Some (last checks)))"
proof -
  let ?checks = "Checks (instances m ! i)"
  have v: "GetInstancesData m ! i = instanceData (instances m ! i)"
    using assms by (simp add: GetInstancesData_def)
  have a: "dChecks (instanceData (instances m ! i)) = ?checks"
    by (simp add: instanceData_def)
  have b: "?checks = [] \<longrightarrow> Uptime (instanceData (instances m ! i)) = 0"
    by (simp add: instanceData_def calculateUptime_def)
  have c: "?checks \<noteq> [] \<and> length ?checks < 2 ^ 53 \<longrightarrow>
      Uptime (instanceData (instances m ! i))
        = roundFloat64
            (roundFloat64 (real (length (filter Success ?checks)) / real (length ?checks)) * 100)
      \<and> \<bar>Uptime (instanceData (instances m ! i))
           - 100 * real (length (filter Success ?checks)) / real (length ?checks)\<bar>
         \<le> 100 * real (length (filter Success ?checks)) / real (length ?checks) / 2 ^ 51"
    using calculateUptime_rounded [of ?checks] calculateUptime_error [of ?checks]
    by (simp add: instanceData_def)
  have d: "?checks = [] \<longrightarrow> AvgResponseTime (instanceData (instances m ! i)) = 0"
    by (simp add: instanceData_def calculateAvgResponseTime_def)
  have e: "?checks \<noteq> [] \<and> (\<forall>c \<in> set ?checks. 0 \<le> ResponseTime c)
      \<and> sum_list (map ResponseTime ?checks) < 2 ^ 63 \<longrightarrow>
      AvgResponseTime (instanceData (instances m ! i))
        = sum_list (map ResponseTime ?checks) div int (length ?checks)"
    using calculateAvgResponseTime_eq [of ?checks] by (simp add: instanceData_def)
  have f: "LastCheck (instanceData (instances m ! i))
      = (if ?checks = [] then None else Some (last ?checks))"
    by (simp add: instanceData_def last_conv_nth)
  from a b c d e f show ?thesis unfolding Let_def v by (intro conjI)
qed

theorem snapshot_metrics_witness:
  "(let m = \<lparr>instances =
        [\<lparr>Group = ''g'', URL = ''u'', InstanceType = ''ui'', Cors = False, GroupOrder = 0, Index = 1,
          Checks = [\<lparr>Timestamp = 1, StatusCode = 200, ResponseTime = 10, Success = True, Error = []\<rparr>,
                    \<lparr>Timestamp = 2, StatusCode = 200, ResponseTime = 10, Success = True, Error = []\<rparr>,
                    \<lparr>Timestamp = 3, StatusCode = 500, ResponseTime = 10, Success = False, Error = []\<rparr>,
                    \<lparr>Timestamp = 4, StatusCode = 200, ResponseTime = 10, Success = True, Error = []\<rparr>]\<rparr>,
         \<lparr>Group = ''g'', URL = ''v'', InstanceType = ''ui'', Cors = False, GroupOrder = 0, Index = 2,
          Checks = [\<lparr>Timestamp = 1, StatusCode = 200, ResponseTime = 100, Success = True, Error = []\<rparr>,
                    \<lparr>Timestamp = 2, StatusCode = 200, ResponseTime = 200, Success = True, Error = []\<rparr>,
                    \<lparr>Timestamp = 3, StatusCode = 200, ResponseTime = 300, Success = True, Error = []\<rparr>]\<rparr>,
         \<lparr>Group = ''g'', URL = ''w'', InstanceType = ''ui'', Cors = False, GroupOrder = 0, Index = 3,
          Checks = []\<rparr>],
      config = \<lparr>MaxCheckHistory = 168, LogLevel = ''info''\<rparr>\<rparr>
    in Uptime (GetInstancesData m ! 0) = 75
       \<and> LastCheck (GetInstancesData m ! 0)
           = Some \<lparr>Timestamp = 4, StatusCode = 200, ResponseTime = 10, Success = True, Error = []\<rparr>
       \<and> AvgResponseTime (GetInstancesData m ! 1) = 200
       \<and> Uptime (GetInstancesData m ! 2) = 0
       \<and> AvgResponseTime (GetInstancesData m ! 2) = 0
       \<and> LastCheck (GetInstancesData m ! 2) = None)"
  using snapshot_metrics [of 0 "\<lparr>instances =
        [\<lparr>Group = ''g'', URL = ''u'', InstanceType = ''ui'', Cors = False, GroupOrder = 0, Index = 1,
          Checks = [\<lparr>Timestamp = 1, StatusCode = 200, ResponseTime = 10, Success = True, Error = []\<rparr>,
                    \<lparr>Timestamp = 2, StatusCode = 200, ResponseTime = 10, Success = True, Error = []\<rparr>,
                    \<lparr>Timestamp = 3, StatusCode = 500, ResponseTime = 10, Success = False, Error = []\<rparr>,
                    \<lparr>Timestamp = 4, StatusCode = 200, ResponseTime = 10, Success = True, Error = []\<rparr>]\<rparr>,
         \<lparr>Group = ''g'', URL = ''v'', InstanceType = ''ui'', Cors = False, GroupOrder = 0, Index = 2,
          Checks = [\<lparr>Timestamp = 1, StatusCode = 200, ResponseTime = 100, Success = True, Error = []\<rparr>,
                    \<lparr>Timestamp = 2, StatusCode = 200, ResponseTime = 200, Success = True, Error = []\<rparr>,
                    \<lparr>Timestamp = 3, StatusCode = 200, ResponseTime = 300, Success = True, Error = []\<rparr>]\<rparr>,
         \<lparr>Group = ''g'', URL = ''w'', InstanceType = ''ui'', Cors = False, GroupOrder = 0, Index = 3,
          Checks = []\<rparr>],
      config = \<lparr>MaxCheckHistory = 168, LogLevel = ''info''\<rparr>\<rparr>"]
    snapshot_metrics [of 1 "\<lparr>instances =
        [\<lparr>Group = ''g'', URL = ''u'', InstanceType = ''ui'', Cors = False, GroupOrder = 0, Index = 1,
          Checks = [\<lparr>Timestamp = 1, StatusCode = 200, ResponseTime = 10, Success = True, Error = []\<rparr>,
                    \<lparr>Timestamp = 2, StatusCode = 200, ResponseTime = 10, Success = True, Error = []\<rparr>,
                    \<lparr>Timestamp = 3, StatusCode = 500, ResponseTime = 10, Success = False, Error = []\<rparr>,
                    \<lparr>Timestamp = 4, StatusCode = 200, ResponseTime = 10, Success = True, Error = []\<rparr>]\<rparr>,
         \<lparr>Group = ''g'', URL = ''v'', InstanceType = ''ui'', Cors = False, GroupOrder = 0, Index = 2,
          Checks = [\<lparr>Timestamp = 1, StatusCode = 200, ResponseTime = 100, Success = True, Error = []\<rparr>,
                    \<lparr>Timestamp = 2, StatusCode = 200, ResponseTime = 200, Success = True, Error = []\<rparr>,
                    \<lparr>Timestamp = 3, StatusCode = 200, ResponseTime = 300, Success = True, Error = []\<rparr>]\<rparr>,
         \<lparr>Group = ''g'', URL = ''w'', InstanceType = ''ui'', Cors = False, GroupOrder = 0, Index = 3,
          Checks = []\<rparr>],
      config = \<lparr>MaxCheckHistory = 168, LogLevel = ''info''\<rparr>\<rparr>"]
    snapshot_metrics [of 2 "\<lparr>instances =
        [\<lparr>Group = ''g'', URL = ''u'', InstanceType = ''ui'', Cors = False, GroupOrder = 0, Index = 1,
          Checks = [\<lparr>Timestamp = 1, StatusCode = 200, ResponseTime = 10, Success = True, Error = []\<rparr>,
                    \<lparr>Timestamp = 2, StatusCode = 200, ResponseTime = 10, Success = True, Error = []\<rparr>,
                    \<lparr>Timestamp = 3, StatusCode = 500, ResponseTime = 10, Success = False, Error = []\<rparr>,
                    \<lparr>Timestamp = 4, StatusCode = 200, ResponseTime = 10, Success = True, Error = []\<rparr>]\<rparr>,
         \<lparr>Group = ''g'', URL = ''v'', InstanceType = ''ui'', Cors = False, GroupOrder = 0, Index = 2,
          Checks = [\<lparr>Timestamp = 1, StatusCode = 200, ResponseTime = 100, Success = True, Error = []\<rparr>,
                    \<lparr>Timestamp = 2, StatusCode = 200, ResponseTime = 200, Success = True, Error = []\<rparr>,
                    \<lparr>Timestamp = 3, StatusCode = 200, ResponseTime = 300, Success = True, Error = []\<rparr>]\<rparr>,
         \<lparr>Group = ''g'', URL = ''w'', InstanceType = ''ui'', Cors = False, GroupOrder = 0, Index = 3,
          Checks = []\<rparr>],
      config = \<lparr>MaxCheckHistory = 168, LogLevel = ''info''\<rparr>\<rparr>"]
  by (simp add: Let_def roundFloat64_def roundPositive_def binaryExponent_def roundHalfEven_def
      floorLog2.simps)

text \<open>
  Claim C9 as stated fails: the uptime is not always 100 times the number of successful
  checks divided by the number of checks. For 57 successful checks of 100, \<^verbatim>\<open>float64(57) / float64(100)\<close> is
  \<open>5134103575202365 / 2\<^sup>5\<^sup>3\<close>, just below 0.57, and its product with 100 rounds to
  \<open>8022036836253695 / 2\<^sup>4\<^sup>7\<close>, the \<^verbatim>\<open>float64\<close> just below 57 (56.99999999999999), although 57 is
  a \<^verbatim>\<open>float64\<close>.
\<close>

theorem uptime_rounded_counterexample:
  "(let m = \<lparr>instances =
        [\<lparr>Group = ''g'', URL = ''u'', InstanceType = ''ui'', Cors = False, GroupOrder = 0, Index = 1,
          Checks = exampleHistory\<rparr>],
      config = exampleConfig\<rparr>;
        v = GetInstancesData m ! 0
    in length (dChecks v) = 100
       \<and> length (filter Success (dChecks v)) = 57
       \<and> Uptime v = 8022036836253695 / 140737488355328
       \<and> Uptime v \<noteq> 100 * real (length (filter Success (dChecks v))) / real (length (dChecks v))
       \<and> roundFloat64 57 = 57)"
proof -
  have h: "length exampleHistory = 100" "length (filter Success exampleHistory) = 57"
    by (simp_all add: exampleHistory_def exampleOk_def exampleTimeout_def)
  have q: "roundFloat64 (57 / 100) = 5134103575202365 / 9007199254740992"
    by (simp add: roundFloat64_def roundPositive_def binaryExponent_def roundHalfEven_def
        floorLog2.simps Let_def)
  have u: "roundFloat64 (128352589380059125 / 2251799813685248)
      = 8022036836253695 / 140737488355328"
    by (simp add: roundFloat64_def roundPositive_def binaryExponent_def roundHalfEven_def
        floorLog2.simps Let_def)
  have k: "roundFloat64 57 = 57" "roundFloat64 100 = 100"
    by (simp_all add: roundFloat64_def roundPositive_def binaryExponent_def roundHalfEven_def
        floorLog2.simps Let_def)
  have ne: "exampleHistory \<noteq> []" by (simp add: exampleHistory_def)
  have "calculateUptime exampleHistory = 8022036836253695 / 140737488355328"
    by (simp add: calculateUptime_eq h k q u ne)
  with h k(1) show ?thesis
    by (simp add: GetInstancesData_def instanceData_def Let_def)
qed

section \<open>The merge follows the walk\<close>

lemma find_app:
  "find P (xs @ ys) = (case find P xs of None \<Rightarrow> find P ys | Some x \<Rightarrow> Some x)"
  by (induction xs) simp_all

lemma find_SomeD: "find P xs = Some x \<Longrightarrow> P x \<and> x \<in> set xs"
  by (induction xs) (auto split: if_splits)

lemma map_of_existingInstances_aux:
  "map_of (foldl (\<lambda>ex inst. AList.update (URL inst) inst ex) ex insts) u
     = (case find (\<lambda>inst. URL inst = u) (rev insts) of Some inst \<Rightarrow> Some inst | None \<Rightarrow> map_of ex u)"
  by (induction insts arbitrary: ex) (auto simp add: update_conv' find_app split: option.splits)

lemma map_of_existingInstances: "map_of (existingInstances insts) = lastTracked insts"
  by (rule ext) (simp add: existingInstances_def lastTracked_def map_of_existingInstances_aux
      split: option.split)

lemma distinct_existingInstances_aux:
  "distinct (map fst ex) \<Longrightarrow>
   distinct (map fst (foldl (\<lambda>ex inst. AList.update (URL inst) inst ex) ex insts))"
  by (induction insts arbitrary: ex) (simp_all add: distinct_update)

lemma distinct_existingInstances: "distinct (map fst (existingInstances insts))"
  by (simp add: existingInstances_def distinct_existingInstances_aux)

lemma lastTracked_URL: "lastTracked insts u = Some e \<Longrightarrow> URL e = u \<and> e \<in> set insts"
  unfolding lastTracked_def by (auto dest: find_SomeD)

lemma lastTracked_None: "lastTracked insts u = None \<longleftrightarrow> u \<notin> URL ` set insts"
  unfolding lastTracked_def by (auto simp add: find_None_iff image_iff)

lemma lastTracked_last:
  "insts = pre @ e # post \<Longrightarrow> URL e \<notin> URL ` set post \<Longrightarrow> lastTracked insts (URL e) = Some e"
proof -
  assume insts: "insts = pre @ e # post" and post: "URL e \<notin> URL ` set post"
  from post have "find (\<lambda>inst. URL inst = URL e) (rev post) = None"
    by (auto simp add: find_None_iff image_iff)
  with insts show ?thesis
    by (simp add: lastTracked_def find_app)
qed

lemma lastTracked_distinct:
  "distinct (map URL insts) \<Longrightarrow> e \<in> set insts \<Longrightarrow> lastTracked insts (URL e) = Some e"
proof -
  assume d: "distinct (map URL insts)" and e: "e \<in> set insts"
  from e obtain pre post where s: "insts = pre @ e # post" by (auto simp add: in_set_conv_decomp)
  with d have "URL e \<notin> URL ` set post" by auto
  with s show ?thesis by (rule lastTracked_last)
qed

lemma walkURL_eq:
  "walkURL grp ty cors gi (ex, upd) u =
     (AList.delete u ex,
      upd @ specPlace (map_of ex) [\<lparr>oGroup = grp, oURL = u, oType = ty, oCors = cors, oOrder = gi\<rparr>])"
  by (simp add: walkURL_def carryInstance_def freshInstance_def delete_notin_dom map_of_eq_None_iff[symmetric] 
      split: option.split)


lemma restrict_forget: "(m(u := None)) |` (- S) = m |` (- insert u S)"
  by (auto simp add: restrict_map_def fun_eq_iff)

lemma map_of_foldl_delete:
  "map_of (foldl (\<lambda>ex u. AList.delete u ex) ex urls) = map_of ex |` (- set urls)"
proof (induction urls arbitrary: ex)
  case Nil
  then show ?case by simp
next
  case (Cons u urls)
  have "map_of (foldl (\<lambda>ex u. AList.delete u ex) (AList.delete u ex) urls)
          = map_of (AList.delete u ex) |` (- set urls)"
    by (rule Cons.IH)
  also have "\<dots> = ((map_of ex)(u := None)) |` (- set urls)"
    by (simp only: delete_conv')
  also have "\<dots> = map_of ex |` (- set (u # urls))"
    by (simp only: restrict_forget list.set)
  finally show ?case by simp
qed

lemma specPlace_append:
  "specPlace tracked (xs @ ys)
     = specPlace tracked xs @ specPlace (tracked |` (- set (map oURL xs))) ys"
proof (induction xs arbitrary: tracked)
  case Nil
  then show ?case by simp
next
  case (Cons x xs)
  have "specPlace (tracked(oURL x := None)) (xs @ ys)
      = specPlace (tracked(oURL x := None)) xs
        @ specPlace ((tracked(oURL x := None)) |` (- set (map oURL xs))) ys"
    by (rule Cons.IH)
  also have "(tracked(oURL x := None)) |` (- set (map oURL xs))
      = tracked |` (- set (map oURL (x # xs)))"
    by (simp only: restrict_forget list.set list.map)
  finally have step: "specPlace (tracked(oURL x := None)) (xs @ ys)
      = specPlace (tracked(oURL x := None)) xs
        @ specPlace (tracked |` (- set (map oURL (x # xs)))) ys" .
  show ?case by (simp only: append_Cons specPlace.simps step)
qed

lemma length_specPlace: "length (specPlace tracked occs) = length occs"
  by (induction occs arbitrary: tracked) simp_all

lemma foldl_walkURL:
  "foldl (walkURL grp ty cors gi) (ex, upd) urls =
     (foldl (\<lambda>ex u. AList.delete u ex) ex urls,
      upd @ specPlace (map_of ex)
              (map (\<lambda>u. \<lparr>oGroup = grp, oURL = u, oType = ty, oCors = cors, oOrder = gi\<rparr>) urls))"
proof (induction urls arbitrary: ex upd)
  case Nil
  then show ?case by simp
next
  case (Cons u urls)
  have "foldl (walkURL grp ty cors gi) (ex, upd) (u # urls)
      = foldl (walkURL grp ty cors gi)
          (AList.delete u ex,
           upd @ specPlace (map_of ex)
                   [\<lparr>oGroup = grp, oURL = u, oType = ty, oCors = cors, oOrder = gi\<rparr>]) urls"
    by (simp only: foldl_Cons walkURL_eq)
  also have "\<dots> = (foldl (\<lambda>ex u. AList.delete u ex) (AList.delete u ex) urls,
      (upd @ specPlace (map_of ex)
                   [\<lparr>oGroup = grp, oURL = u, oType = ty, oCors = cors, oOrder = gi\<rparr>])
      @ specPlace ((map_of ex)(u := None))
              (map (\<lambda>u. \<lparr>oGroup = grp, oURL = u, oType = ty, oCors = cors, oOrder = gi\<rparr>) urls))"
    by (simp only: Cons.IH delete_conv')
  finally show ?case by simp
qed

lemma apiGroups_eq:
  "apiGroups data order (ex, upd, gi) =
     (foldl (\<lambda>ex u. AList.delete u ex) ex (map oURL (apiWalk data order gi)),
      upd @ specPlace (map_of ex) (apiWalk data order gi),
      gi + int (length (filter (\<lambda>grp. API data grp \<noteq> None) order)))"
proof (induction order arbitrary: ex upd gi)
  case Nil
  then show ?case by simp
next
  case (Cons grp order)
  show ?case
  proof (cases "API data grp")
    case None
    then show ?thesis by (simp add: Cons.IH)
  next
    case (Some d)
    then show ?thesis
      by (simp add: foldl_walkURL Cons.IH specPlace_append map_of_foldl_delete comp_def del: specPlace.simps)
  qed
qed

lemma uiGroups_eq:
  "uiGroups data order (ex, upd, gi) =
     (foldl (\<lambda>ex u. AList.delete u ex) ex (map oURL (uiWalk data order gi)),
      upd @ specPlace (map_of ex) (uiWalk data order gi),
      gi + int (length (filter (\<lambda>grp. UI data grp \<noteq> None) order)))"
proof (induction order arbitrary: ex upd gi)
  case Nil
  then show ?case by simp
next
  case (Cons grp order)
  show ?case
  proof (cases "UI data grp")
    case None
    then show ?thesis by (simp add: Cons.IH)
  next
    case (Some d)
    then show ?thesis
      by (simp add: foldl_walkURL Cons.IH specPlace_append map_of_foldl_delete comp_def del: specPlace.simps)
  qed
qed

lemma mergeInstances_eq:
  "mergeInstances data apiOrder uiOrder insts =
     (let occs = specWalk data apiOrder uiOrder;
          ex = foldl (\<lambda>ex u. AList.delete u ex) (existingInstances insts) (map oURL occs)
      in (assignIndex (specPlace (lastTracked insts) occs),
          int (length occs) - (int (length insts) - int (length ex)),
          int (length ex)))"
  by (simp add: mergeInstances_def apiGroups_eq uiGroups_eq specWalk_def Let_def
      specPlace_append map_of_foldl_delete map_of_existingInstances length_specPlace)

lemma specPlace_nth:
  assumes "p < length occs"
  shows "specPlace tracked occs ! p =
     (case (tracked |` (- set (map oURL (take p occs)))) (oURL (occs ! p)) of
        Some existing \<Rightarrow> carryInstance existing (occs ! p)
      | None \<Rightarrow> freshInstance (occs ! p))"
proof -
  from assms have split: "occs = take p occs @ occs ! p # drop (Suc p) occs"
    by (simp add: id_take_nth_drop)
  have "specPlace tracked occs ! p
      = specPlace tracked (take p occs @ occs ! p # drop (Suc p) occs) ! p"
    using split by simp
  also have "\<dots> = (specPlace tracked (take p occs)
        @ specPlace (tracked |` (- set (map oURL (take p occs)))) (occs ! p # drop (Suc p) occs)) ! p"
    by (simp only: specPlace_append)
  also have "\<dots> = specPlace (tracked |` (- set (map oURL (take p occs)))) (occs ! p # drop (Suc p) occs) ! 0"
    using assms by (simp add: nth_append length_specPlace)
  finally show ?thesis by simp
qed

lemma specPlace_nth_later:
  "p < length occs \<Longrightarrow> oURL (occs ! p) \<in> set (map oURL (take p occs)) \<Longrightarrow>
   specPlace tracked occs ! p = freshInstance (occs ! p)"
  by (simp add: specPlace_nth restrict_map_def)

lemma specPlace_nth_first:
  "p < length occs \<Longrightarrow> oURL (occs ! p) \<notin> set (map oURL (take p occs)) \<Longrightarrow>
   specPlace tracked occs ! p =
     (case tracked (oURL (occs ! p)) of
        Some existing \<Rightarrow> carryInstance existing (occs ! p)
      | None \<Rightarrow> freshInstance (occs ! p))"
  by (simp add: specPlace_nth restrict_map_def)

lemma length_assignIndex: "length (assignIndex insts) = length insts"
  by (simp add: assignIndex_def)

lemma assignIndex_nth:
  "p < length insts \<Longrightarrow> assignIndex insts ! p = (insts ! p)\<lparr>Index := int p + 1\<rparr>"
  by (simp add: assignIndex_def nth_enumerate_eq)

lemma map_URL_assignIndex: "map URL (assignIndex insts) = map URL insts"
  by (rule nth_equalityI) (simp_all add: length_assignIndex assignIndex_nth)

lemma map_Index_assignIndex:
  "map Index (assignIndex insts) = map (\<lambda>i. int i + 1) [0..<length insts]"
  by (rule nth_equalityI) (simp_all add: length_assignIndex assignIndex_nth)

lemma updateInstances_ok:
  assumes "resp = Response 200 (Body body)" "unmarshal body = Inr data"
  shows "updateInstances groupsRange unmarshal resp m =
     (case mergeInstances data (extractOrderFromJSON groupsRange body ''api'')
             (extractOrderFromJSON groupsRange body ''ui'') (instances m) of
        (updatedInstances, addedCount, removedCount) \<Rightarrow>
          (None, m\<lparr>instances := updatedInstances\<rparr>,
           if addedCount > 0 \<or> removedCount > 0 then [BroadcastUpdate] else []))"
  using assms by (simp add: updateInstances_def)

lemma updateInstances_instances:
  assumes "resp = Response 200 (Body body)" "unmarshal body = Inr data"
  shows "instances (monitorOf (updateInstances groupsRange unmarshal resp m)) =
     assignIndex (specPlace (lastTracked (instances m))
       (specWalk data (extractOrderFromJSON groupsRange body ''api'')
          (extractOrderFromJSON groupsRange body ''ui'')))"
  using assms by (simp add: updateInstances_ok mergeInstances_eq Let_def monitorOf_def)

lemma specPlace_URL:
  assumes "\<And>u e. tracked u = Some e \<Longrightarrow> URL e = u"
  shows "map URL (specPlace tracked occs) = map oURL occs"
  using assms
proof (induction occs arbitrary: tracked)
  case Nil
  then show ?case by simp
next
  case (Cons occ occs)
  have "map URL (specPlace (tracked(oURL occ := None)) occs) = map oURL occs"
    by (rule Cons.IH) (use Cons.prems in \<open>auto split: if_splits\<close>)
  then show ?case
    using Cons.prems by (auto simp add: carryInstance_def freshInstance_def split: option.split)
qed

lemma lastTracked_key: "lastTracked insts u = Some e \<Longrightarrow> URL e = u"
  by (simp add: lastTracked_URL)


text \<open>
  A successful reconciliation leaves one Instance per URL occurrence of the walk over the
  groups that the extractor recovered, in walk order, also when a URL occurs more than once.
  An occurrence whose URL was already met earlier in the walk is a fresh Instance with empty
  history. The first occurrence of a URL is the Instance the registry tracked under that URL,
  with its history, when there is one, and a fresh Instance with empty history otherwise.
\<close>

lemma walked_occurrences_placed:
  assumes "resp = Response 200 (Body body)" and "unmarshal body = Inr data"
  shows "(let occs = specWalk data (extractOrderFromJSON groupsRange body ''api'')
                       (extractOrderFromJSON groupsRange body ''ui'');
              after = instances (monitorOf (updateInstances groupsRange unmarshal resp m))
          in length after = length occs \<and> map URL after = map oURL occs
           \<and> (\<forall>p < length occs.
                 (oURL (occs ! p) \<in> set (map oURL (take p occs)) \<longrightarrow>
                    after ! p = (freshInstance (occs ! p))\<lparr>Index := int p + 1\<rparr>
                    \<and> Checks (after ! p) = [])
               \<and> (oURL (occs ! p) \<notin> set (map oURL (take p occs)) \<longrightarrow>
                    (case lastTracked (instances m) (oURL (occs ! p)) of
                       Some existing \<Rightarrow>
                         after ! p = (carryInstance existing (occs ! p))\<lparr>Index := int p + 1\<rparr>
                         \<and> Checks (after ! p) = Checks existing
                     | None \<Rightarrow>
                         after ! p = (freshInstance (occs ! p))\<lparr>Index := int p + 1\<rparr>
                         \<and> Checks (after ! p) = []))))"
proof -
  let ?occs = "specWalk data (extractOrderFromJSON groupsRange body ''api'')
                       (extractOrderFromJSON groupsRange body ''ui'')"
  let ?placed = "specPlace (lastTracked (instances m)) ?occs"
  have after: "instances (monitorOf (updateInstances groupsRange unmarshal resp m))
      = assignIndex ?placed"
    using assms by (rule updateInstances_instances)
  have len: "length (assignIndex ?placed) = length ?occs"
    by (simp add: length_assignIndex length_specPlace)
  have urls: "map URL (assignIndex ?placed) = map oURL ?occs"
    by (simp add: map_URL_assignIndex specPlace_URL lastTracked_key)
  have nth: "assignIndex ?placed ! p = (?placed ! p)\<lparr>Index := int p + 1\<rparr>" if "p < length ?occs" for p
    using that by (simp add: assignIndex_nth length_specPlace)
  have later: "assignIndex ?placed ! p = (freshInstance (?occs ! p))\<lparr>Index := int p + 1\<rparr>
      \<and> Checks (assignIndex ?placed ! p) = []"
    if "p < length ?occs" "oURL (?occs ! p) \<in> set (map oURL (take p ?occs))" for p
    using that by (simp add: nth specPlace_nth_later) (simp add: freshInstance_def)
  have first: "(case lastTracked (instances m) (oURL (?occs ! p)) of
        Some existing \<Rightarrow>
          assignIndex ?placed ! p = (carryInstance existing (?occs ! p))\<lparr>Index := int p + 1\<rparr>
          \<and> Checks (assignIndex ?placed ! p) = Checks existing
      | None \<Rightarrow>
          assignIndex ?placed ! p = (freshInstance (?occs ! p))\<lparr>Index := int p + 1\<rparr>
          \<and> Checks (assignIndex ?placed ! p) = [])"
    if "p < length ?occs" "oURL (?occs ! p) \<notin> set (map oURL (take p ?occs))" for p
    using that
    by (simp add: nth specPlace_nth_first split: option.split)
       (simp add: freshInstance_def carryInstance_def)
  show ?thesis
    unfolding Let_def after
  proof (intro conjI allI impI)
    show "length (assignIndex ?placed) = length ?occs" by (rule len)
    show "map URL (assignIndex ?placed) = map oURL ?occs" by (rule urls)
  next
    fix p assume a: "p < length ?occs" "oURL (?occs ! p) \<in> set (map oURL (take p ?occs))"
    note l = later [OF a]
    from l show "assignIndex ?placed ! p = (freshInstance (?occs ! p))\<lparr>Index := int p + 1\<rparr>"
      by (rule conjunct1)
    from l show "Checks (assignIndex ?placed ! p) = []"
      by (rule conjunct2)
  next
    fix p assume "p < length ?occs" "oURL (?occs ! p) \<notin> set (map oURL (take p ?occs))"
    then show "(case lastTracked (instances m) (oURL (?occs ! p)) of
        Some existing \<Rightarrow>
          assignIndex ?placed ! p = (carryInstance existing (?occs ! p))\<lparr>Index := int p + 1\<rparr>
          \<and> Checks (assignIndex ?placed ! p) = Checks existing
      | None \<Rightarrow>
          assignIndex ?placed ! p = (freshInstance (?occs ! p))\<lparr>Index := int p + 1\<rparr>
          \<and> Checks (assignIndex ?placed ! p) = [])"
      by (rule first)
  qed
qed





section \<open>The examples, evaluated\<close>

lemmas example_defs = payloadTwice_def payloadOnce_def payloadBoth_def payloadEscaped_def
  payloadEscapedTwice_def payloadNested_def payloadGroups_def exampleUnmarshal_def
  exampleGroups_def exampleConfig_def exampleEnv_def exampleOk_def exampleTimeout_def

lemmas eval_defs = extractOrderFromJSON_def scanOrder.simps quote_def sectionOf_def
  updateInstances_def mergeInstances_def urlErrorText_def existingInstances_def walkURL_def assignIndex_def monitorOf_def
  NewMonitor_def checkAll_def checkInstance_def appendCheck_def probe_def checkURL_def
  AList.delete_eq

lemma twiceRegistry_eq:
  "twiceRegistry =
     \<lparr>instances =
        [\<lparr>Group = ''g'', URL = ''https://a.io'', InstanceType = ''api'', Cors = True,
          GroupOrder = 0, Index = 1, Checks = [exampleOk]\<rparr>,
         \<lparr>Group = ''g'', URL = ''https://a.io'', InstanceType = ''api'', Cors = True,
          GroupOrder = 0, Index = 2, Checks = [exampleTimeout]\<rparr>],
      config = exampleConfig\<rparr>"
  unfolding twiceRegistry_def
  by (simp add: example_defs eval_defs Let_def)


lemma order_payloadBoth:
  "extractOrderFromJSON exampleGroups payloadBoth ''api'' = [''g'']"
  "extractOrderFromJSON exampleGroups payloadBoth ''ui'' = []"
  by (simp_all add: example_defs eval_defs Let_def)

lemma order_payloadEscaped:
  "extractOrderFromJSON exampleGroups payloadEscaped ''api'' = []"
  "extractOrderFromJSON exampleGroups payloadEscaped ''ui'' = []"
  by (simp_all add: example_defs eval_defs Let_def)

lemma order_payloadEscapedTwice:
  "extractOrderFromJSON exampleGroups payloadEscapedTwice ''api'' = []"
  "extractOrderFromJSON exampleGroups payloadEscapedTwice ''ui'' = []"
  by (simp_all add: example_defs eval_defs Let_def)

lemma order_payloadTwice:
  "extractOrderFromJSON exampleGroups payloadTwice ''api'' = [''g'']"
  "extractOrderFromJSON exampleGroups payloadTwice ''ui'' = []"
  by (simp_all add: example_defs eval_defs Let_def)

lemma order_payloadNested:
  "extractOrderFromJSON exampleGroups payloadNested ''api'' = [''ui'']"
  "extractOrderFromJSON exampleGroups payloadNested ''ui'' = [''urls'', ''cors'']"
  by (simp_all add: example_defs eval_defs Let_def)

lemma onceRegistry_eq:
  "onceRegistry =
     \<lparr>instances =
        [\<lparr>Group = ''g'', URL = ''https://a.io'', InstanceType = ''api'', Cors = True,
          GroupOrder = 0, Index = 1, Checks = [exampleOk]\<rparr>],
      config = exampleConfig\<rparr>"
  unfolding onceRegistry_def
  by (simp add: example_defs eval_defs Let_def)

lemma order_payloadGroups:
  "extractOrderFromJSON exampleGroups payloadGroups ''api'' = [''beta'', ''alpha'']"
  "extractOrderFromJSON exampleGroups payloadGroups ''ui'' = [''web'']"
  by (simp_all add: example_defs eval_defs Let_def)


text \<open>
  Claim C3 fails on the code. \<open>payloadEscaped\<close> is well-formed and lists \<^verbatim>\<open>https://a.io\<close> in
  the API group \<^verbatim>\<open>a/b\<close>, which \<^verbatim>\<open>json.Unmarshal\<close> decodes. The order extractor looks for
  the decoded name \<^verbatim>\<open>"a/b"\<close> in the raw text, where the name stands escaped, recovers no
  group, and the reconciliation of a new Monitor succeeds with an empty registry.
\<close>

theorem escaped_group_not_tracked:
  "exampleUnmarshal payloadEscaped
       = Inr \<lparr>API = [''a/b'' \<mapsto> \<lparr>URLs = [''https://a.io''], GroupCors = True\<rparr>],
              UI = Map.empty\<rparr>
   \<and> extractOrderFromJSON exampleGroups payloadEscaped ''api'' = []
   \<and> updateInstances exampleGroups exampleUnmarshal (Response 200 (Body payloadEscaped))
         (NewMonitor exampleConfig)
       = (None, \<lparr>instances = [], config = exampleConfig\<rparr>, [])"
proof -
  have "exampleUnmarshal payloadEscaped
       = Inr \<lparr>API = [''a/b'' \<mapsto> \<lparr>URLs = [''https://a.io''], GroupCors = True\<rparr>],
              UI = Map.empty\<rparr>"
    by (simp add: example_defs)
  then show ?thesis
    by (simp add: updateInstances_def order_payloadEscaped)
       (simp add: eval_defs)
qed

text \<open>
  Claim C8 fails on the code. Reconciling \<open>payloadBoth\<close> on \<open>twiceRegistry\<close> drops one of the
  two Instances of \<^verbatim>\<open>https://a.io\<close> and adds an Instance for \<^verbatim>\<open>https://b.io\<close>, and no broadcast
  is made: \<^verbatim>\<open>addedCount\<close> is \<open>2 - (2 - 0) = 0\<close> and \<^verbatim>\<open>removedCount\<close> is 0. A check cycle
  always broadcasts.
\<close>

theorem membership_change_without_broadcast:
  "map URL (instances twiceRegistry) = [''https://a.io'', ''https://a.io'']
   \<and> updateInstances exampleGroups exampleUnmarshal (Response 200 (Body payloadBoth))
         twiceRegistry
       = (None,
          \<lparr>instances =
             [\<lparr>Group = ''g'', URL = ''https://a.io'', InstanceType = ''api'', Cors = True,
               GroupOrder = 0, Index = 1, Checks = [exampleTimeout]\<rparr>,
              \<lparr>Group = ''g'', URL = ''https://b.io'', InstanceType = ''api'', Cors = True,
               GroupOrder = 0, Index = 2, Checks = []\<rparr>],
           config = exampleConfig\<rparr>, [])
   \<and> mergeInstances
         \<lparr>API = [''g'' \<mapsto> \<lparr>URLs = [''https://a.io'', ''https://b.io''], GroupCors = True\<rparr>],
          UI = Map.empty\<rparr> [''g''] [] (instances twiceRegistry)
       = ([\<lparr>Group = ''g'', URL = ''https://a.io'', InstanceType = ''api'', Cors = True,
               GroupOrder = 0, Index = 1, Checks = [exampleTimeout]\<rparr>,
              \<lparr>Group = ''g'', URL = ''https://b.io'', InstanceType = ''api'', Cors = True,
               GroupOrder = 0, Index = 2, Checks = []\<rparr>], 0, 0)
   \<and> snd (checkAll exampleEnv twiceRegistry) = [BroadcastUpdate]"
proof -
  have "exampleUnmarshal payloadBoth
       = Inr \<lparr>API = [''g'' \<mapsto> \<lparr>URLs = [''https://a.io'', ''https://b.io''], GroupCors = True\<rparr>],
              UI = Map.empty\<rparr>"
    by (simp add: example_defs)
  then show ?thesis
    by (simp add: twiceRegistry_eq updateInstances_def order_payloadBoth)
       (simp add: eval_defs)
qed

text \<open>
  Claim C10 fails on the code. \<open>onceRegistry\<close> tracks \<^verbatim>\<open>https://a.io\<close> with the history
  \<open>[exampleOk]\<close>. \<open>payloadTwice\<close> lists that URL twice in the group \<^verbatim>\<open>g\<close>, and reconciling it
  leaves two Instances, the tracked one with its history and a fresh one.
  \<open>payloadEscapedTwice\<close> lists the URL twice in the group \<^verbatim>\<open>a/b\<close>, whose name stands escaped in
  the raw text: the order extractor recovers no group, and reconciling it leaves no Instance
  at all, neither the tracked one nor a fresh one.
\<close>

theorem duplicate_url_not_placed:
  "instances onceRegistry
       = [\<lparr>Group = ''g'', URL = ''https://a.io'', InstanceType = ''api'', Cors = True,
           GroupOrder = 0, Index = 1, Checks = [exampleOk]\<rparr>]
   \<and> updateInstances exampleGroups exampleUnmarshal (Response 200 (Body payloadTwice))
         onceRegistry
       = (None,
          \<lparr>instances =
             [\<lparr>Group = ''g'', URL = ''https://a.io'', InstanceType = ''api'', Cors = True,
               GroupOrder = 0, Index = 1, Checks = [exampleOk]\<rparr>,
              \<lparr>Group = ''g'', URL = ''https://a.io'', InstanceType = ''api'', Cors = True,
               GroupOrder = 0, Index = 2, Checks = []\<rparr>],
           config = exampleConfig\<rparr>, [BroadcastUpdate])
   \<and> exampleUnmarshal payloadEscapedTwice
       = Inr \<lparr>API = [''a/b'' \<mapsto> \<lparr>URLs = [''https://a.io'', ''https://a.io''], GroupCors = True\<rparr>],
              UI = Map.empty\<rparr>
   \<and> extractOrderFromJSON exampleGroups payloadEscapedTwice ''api'' = []
   \<and> updateInstances exampleGroups exampleUnmarshal (Response 200 (Body payloadEscapedTwice))
         onceRegistry
       = (None, \<lparr>instances = [], config = exampleConfig\<rparr>, [BroadcastUpdate])"
proof -
  have a: "exampleUnmarshal payloadTwice
       = Inr \<lparr>API = [''g'' \<mapsto> \<lparr>URLs = [''https://a.io'', ''https://a.io''], GroupCors = True\<rparr>],
              UI = Map.empty\<rparr>"
    by (simp add: example_defs)
  have b: "exampleUnmarshal payloadEscapedTwice
       = Inr \<lparr>API = [''a/b'' \<mapsto> \<lparr>URLs = [''https://a.io'', ''https://a.io''], GroupCors = True\<rparr>],
              UI = Map.empty\<rparr>"
    by (simp add: example_defs)
  from a b show ?thesis
    by (simp add: onceRegistry_eq updateInstances_def order_payloadTwice
        order_payloadEscapedTwice)
       (simp add: eval_defs)
qed

text \<open>
  Claim C5 fails on the code. In \<open>payloadGroups\<close> the extractor recovers the API groups in the
  order of the text, \<^verbatim>\<open>beta\<close> before \<^verbatim>\<open>alpha\<close>. In \<open>payloadNested\<close>, which is well-formed, the
  section \<^verbatim>\<open>ui\<close> has the one key \<^verbatim>\<open>web\<close>, and an API group is named \<^verbatim>\<open>ui\<close> too: the extractor
  takes the first \<^verbatim>\<open>"ui"\<close> of the payload, the name of the API group, for the section and
  returns the keys \<^verbatim>\<open>urls\<close> and \<^verbatim>\<open>cors\<close> of that group's details, so that the reconciliation of
  a new Monitor tracks no UI Instance. In \<open>payloadEscaped\<close>, which is well-formed as well, the
  section \<^verbatim>\<open>api\<close> has the one key \<^verbatim>\<open>a/b\<close>, and the extractor returns no key.
\<close>

theorem nested_name_taken_for_section:
  "extractOrderFromJSON exampleGroups payloadGroups ''api'' = [''beta'', ''alpha'']
   \<and> exampleUnmarshal payloadNested
       = Inr \<lparr>API = [''ui'' \<mapsto> \<lparr>URLs = [''https://a.io''], GroupCors = True\<rparr>],
              UI = [''web'' \<mapsto> [''https://w.io'']]\<rparr>
   \<and> extractOrderFromJSON exampleGroups payloadNested ''ui'' = [''urls'', ''cors'']
   \<and> updateInstances exampleGroups exampleUnmarshal (Response 200 (Body payloadNested))
         (NewMonitor exampleConfig)
       = (None,
          \<lparr>instances =
             [\<lparr>Group = ''ui'', URL = ''https://a.io'', InstanceType = ''api'', Cors = True,
               GroupOrder = 0, Index = 1, Checks = []\<rparr>],
           config = exampleConfig\<rparr>, [BroadcastUpdate])
   \<and> exampleUnmarshal payloadEscaped
       = Inr \<lparr>API = [''a/b'' \<mapsto> \<lparr>URLs = [''https://a.io''], GroupCors = True\<rparr>],
              UI = Map.empty\<rparr>
   \<and> extractOrderFromJSON exampleGroups payloadEscaped ''api'' = []"
proof -
  have a: "exampleUnmarshal payloadNested
       = Inr \<lparr>API = [''ui'' \<mapsto> \<lparr>URLs = [''https://a.io''], GroupCors = True\<rparr>],
              UI = [''web'' \<mapsto> [''https://w.io'']]\<rparr>"
    by (simp add: example_defs)
  have b: "exampleUnmarshal payloadEscaped
       = Inr \<lparr>API = [''a/b'' \<mapsto> \<lparr>URLs = [''https://a.io''], GroupCors = True\<rparr>],
              UI = Map.empty\<rparr>"
    by (simp add: example_defs)
  from a b show ?thesis
    by (simp add: updateInstances_def order_payloadGroups order_payloadNested
        order_payloadEscaped)
       (simp add: eval_defs)
qed


lemma unmarshal_payloadGroups:
  "exampleUnmarshal payloadGroups = Inr dataGroups"
  by (simp add: example_defs)


section \<open>The recovered order has no duplicates\<close>

lemma findEarliest_key:
  "findEarliest sec pos order keys (p, k) = (p', k') \<Longrightarrow>
   k' = k \<or> (k' \<in> set keys \<and> k' \<notin> set order)"
proof (induction keys arbitrary: p k)
  case Nil
  then show ?case by simp
next
  case (Cons key keys)
  show ?case
  proof (cases "key \<in> set order")
    case True
    with Cons.prems have "findEarliest sec pos order keys (p, k) = (p', k')" by simp
    from Cons.IH [OF this] show ?thesis by auto
  next
    case False
    show ?thesis
    proof (cases "strIndex (drop pos sec) (quote key)")
      case None
      with False Cons.prems have "findEarliest sec pos order keys (p, k) = (p', k')" by simp
      from Cons.IH [OF this] show ?thesis by auto
    next
      case (Some foundPos)
      show ?thesis
      proof (cases "foundPos + pos < p")
        case True
        with False Some Cons.prems
        have "findEarliest sec pos order keys (foundPos + pos, key) = (p', k')" by simp
        from Cons.IH [OF this] False show ?thesis by auto
      next
        case no: False
        with False Some Cons.prems
        have "findEarliest sec pos order keys (p, k) = (p', k')" by simp
        from Cons.IH [OF this] show ?thesis by auto
      qed
    qed
  qed
qed

lemma scanOrder_distinct:
  "distinct order \<Longrightarrow> distinct (scanOrder sec keysAt n pos order)"
proof (induction sec keysAt n pos order rule: scanOrder.induct)
  case (1 sec keysAt n pos order)
  show ?case
  proof (cases "length order < n")
    case False
    then show ?thesis using "1.prems" by (simp add: scanOrder.simps [of sec keysAt n pos order])
  next
    case True
    obtain p k where f: "findEarliest sec pos order (keysAt (length order)) (length sec, []) = (p, k)"
      by (cases "findEarliest sec pos order (keysAt (length order)) (length sec, [])")
    show ?thesis
    proof (cases "k = []")
      case True
      with \<open>length order < n\<close> f "1.prems" show ?thesis
        by (simp add: scanOrder.simps [of sec keysAt n pos order])
    next
      case False
      with findEarliest_key [OF f] have "k \<notin> set order" by auto
      with "1.prems" have "distinct (order @ [k])" by simp
      from "1.IH" [OF True f [symmetric] False this]
      have "distinct (scanOrder sec keysAt n (p + length k + 2) (order @ [k]))" .
      with True f False show ?thesis
        by (simp add: scanOrder.simps [of sec keysAt n pos order])
    qed
  qed
qed

lemma scanOrder_subset:
  "set (scanOrder sec keysAt n pos order) \<subseteq> set order \<union> (\<Union>r. set (keysAt r))"
proof (induction sec keysAt n pos order rule: scanOrder.induct)
  case (1 sec keysAt n pos order)
  show ?case
  proof (cases "length order < n")
    case False
    then show ?thesis by (simp add: scanOrder.simps [of sec keysAt n pos order])
  next
    case True
    obtain p k where f: "findEarliest sec pos order (keysAt (length order)) (length sec, []) = (p, k)"
      by (cases "findEarliest sec pos order (keysAt (length order)) (length sec, [])")
    show ?thesis
    proof (cases "k = []")
      case True
      with \<open>length order < n\<close> f show ?thesis
        by (simp add: scanOrder.simps [of sec keysAt n pos order])
    next
      case False
      with findEarliest_key [OF f] have "k \<in> set (keysAt (length order))" by auto
      then have "set (order @ [k]) \<subseteq> set order \<union> (\<Union>r. set (keysAt r))" by auto
      moreover from "1.IH" [OF True f [symmetric] False]
      have "set (scanOrder sec keysAt n (p + length k + 2) (order @ [k]))
          \<subseteq> set (order @ [k]) \<union> (\<Union>r. set (keysAt r))" .
      ultimately have "set (scanOrder sec keysAt n (p + length k + 2) (order @ [k]))
          \<subseteq> set order \<union> (\<Union>r. set (keysAt r))" by blast
      with True f False show ?thesis
        by (simp add: scanOrder.simps [of sec keysAt n pos order])
    qed
  qed
qed

lemma extractOrderFromJSON_distinct: "distinct (extractOrderFromJSON groupsRange jsonStr section)"
  by (simp add: extractOrderFromJSON_def scanOrder_distinct Let_def split: option.split)

section \<open>Group order\<close>

lemma apiWalk_bounds:
  "occ \<in> set (apiWalk data order gi) \<Longrightarrow>
   gi \<le> oOrder occ
   \<and> oOrder occ < gi + int (length (filter (\<lambda>grp. API data grp \<noteq> None) order))
   \<and> oGroup occ \<in> set order"
proof (induction order arbitrary: gi)
  case Nil
  then show ?case by simp
next
  case (Cons grp order)
  show ?case
  proof (cases "API data grp")
    case None
    with Cons.prems have "occ \<in> set (apiWalk data order gi)" by simp
    from Cons.IH [OF this] None show ?thesis by simp
  next
    case (Some d)
    with Cons.prems consider
        (here) "oOrder occ = gi" "oGroup occ = grp"
      | (later) "occ \<in> set (apiWalk data order (gi + 1))"
      by auto
    then show ?thesis
    proof cases
      case here
      with Some show ?thesis by simp
    next
      case later
      from Cons.IH [OF this] Some show ?thesis by simp
    qed
  qed
qed

lemma uiWalk_bounds:
  "occ \<in> set (uiWalk data order gi) \<Longrightarrow>
   gi \<le> oOrder occ
   \<and> oOrder occ < gi + int (length (filter (\<lambda>grp. UI data grp \<noteq> None) order))
   \<and> oGroup occ \<in> set order"
proof (induction order arbitrary: gi)
  case Nil
  then show ?case by simp
next
  case (Cons grp order)
  show ?case
  proof (cases "UI data grp")
    case None
    with Cons.prems have "occ \<in> set (uiWalk data order gi)" by simp
    from Cons.IH [OF this] None show ?thesis by simp
  next
    case (Some d)
    with Cons.prems consider
        (here) "oOrder occ = gi" "oGroup occ = grp"
      | (later) "occ \<in> set (uiWalk data order (gi + 1))"
      by auto
    then show ?thesis
    proof cases
      case here
      with Some show ?thesis by simp
    next
      case later
      from Cons.IH [OF this] Some show ?thesis by simp
    qed
  qed
qed

lemma apiWalk_sameOrLater:
  "distinct order \<Longrightarrow> sorted_wrt sameOrLater (apiWalk data order gi)"
proof (induction order arbitrary: gi)
  case Nil
  then show ?case by simp
next
  case (Cons grp order)
  from Cons.prems have d: "distinct order" and new: "grp \<notin> set order" by simp_all
  show ?case
  proof (cases "API data grp")
    case None
    with Cons.IH [OF d] show ?thesis by simp
  next
    case (Some details)
    let ?block = "map (\<lambda>u. \<lparr>oGroup = grp, oURL = u, oType = ''api'', oCors = GroupCors details,
                    oOrder = gi\<rparr>) (URLs details)"
    have block: "sorted_wrt sameOrLater ?block"
      by (simp add: sorted_wrt_map sameOrLater_def)
    have cross: "sameOrLater a b" if "a \<in> set ?block" "b \<in> set (apiWalk data order (gi + 1))" for a b
    proof -
      from that(1) have a: "oGroup a = grp" "oOrder a = gi" by auto
      from apiWalk_bounds [OF that(2)] new have "oGroup b \<noteq> grp" "gi < oOrder b" by auto
      with a show ?thesis by (simp add: sameOrLater_def)
    qed
    from block Cons.IH [OF d, of "gi + 1"] cross Some show ?thesis
      by (simp add: sorted_wrt_append)
  qed
qed

lemma uiWalk_sameOrLater:
  "distinct order \<Longrightarrow> sorted_wrt sameOrLater (uiWalk data order gi)"
proof (induction order arbitrary: gi)
  case Nil
  then show ?case by simp
next
  case (Cons grp order)
  from Cons.prems have d: "distinct order" and new: "grp \<notin> set order" by simp_all
  show ?case
  proof (cases "UI data grp")
    case None
    with Cons.IH [OF d] show ?thesis by simp
  next
    case (Some urls)
    let ?block = "map (\<lambda>u. \<lparr>oGroup = grp, oURL = u, oType = ''ui'', oCors = False,
                    oOrder = gi\<rparr>) urls"
    have block: "sorted_wrt sameOrLater ?block"
      by (simp add: sorted_wrt_map sameOrLater_def)
    have cross: "sameOrLater a b" if "a \<in> set ?block" "b \<in> set (uiWalk data order (gi + 1))" for a b
    proof -
      from that(1) have a: "oGroup a = grp" "oOrder a = gi" by auto
      from uiWalk_bounds [OF that(2)] new have "oGroup b \<noteq> grp" "gi < oOrder b" by auto
      with a show ?thesis by (simp add: sameOrLater_def)
    qed
    from block Cons.IH [OF d, of "gi + 1"] cross Some show ?thesis
      by (simp add: sorted_wrt_append)
  qed
qed

lemma sameOrLater_le: "sameOrLater a b \<Longrightarrow> oOrder a \<le> oOrder b"
  by (simp add: sameOrLater_def split: if_splits)

lemma specPlace_Group: "map Group (specPlace tracked occs) = map oGroup occs"
  by (induction occs arbitrary: tracked)
     (simp_all add: carryInstance_def freshInstance_def split: option.split)

lemma specPlace_GroupOrder: "map GroupOrder (specPlace tracked occs) = map oOrder occs"
  by (induction occs arbitrary: tracked)
     (simp_all add: carryInstance_def freshInstance_def split: option.split)

lemma assignIndex_Group: "map Group (assignIndex insts) = map Group insts"
  by (rule nth_equalityI) (simp_all add: length_assignIndex assignIndex_nth)

lemma assignIndex_GroupOrder: "map GroupOrder (assignIndex insts) = map GroupOrder insts"
  by (rule nth_equalityI) (simp_all add: length_assignIndex assignIndex_nth)

lemma sorted_wrt_sameOrLater_sorted:
  "sorted_wrt sameOrLater occs \<Longrightarrow> sorted (map oOrder occs)"
proof -
  assume "sorted_wrt sameOrLater occs"
  then have "sorted_wrt (\<lambda>a b. oOrder a \<le> oOrder b) occs"
    by (rule sorted_wrt_mono_rel [rotated]) (simp add: sameOrLater_le)
  then show ?thesis by (simp add: sorted_map)
qed

lemma sameOrLater_nth:
  "sorted_wrt sameOrLater occs \<Longrightarrow> i < j \<Longrightarrow> j < length occs \<Longrightarrow>
   (oOrder (occs ! i) < oOrder (occs ! j) \<longleftrightarrow> oGroup (occs ! i) \<noteq> oGroup (occs ! j))"
proof -
  assume "sorted_wrt sameOrLater occs" "i < j" "j < length occs"
  then have "sameOrLater (occs ! i) (occs ! j)" by (rule sorted_wrt_nth_less)
  then show ?thesis by (simp add: sameOrLater_def split: if_splits)
qed

text \<open>
  Claim C7. After a successful reconciliation the group order never decreases along the
  registry. For two Instances of the same section (both among the API occurrences, or both
  among the UI occurrences) the later one has a larger group order exactly when its group
  differs, so the number steps up at every group boundary and nowhere else. Every API
  occurrence has a smaller group order than every UI occurrence: the API groups are numbered
  from 0, the UI groups from the number of API groups on.
\<close>

theorem group_order_increases:
  assumes "resp = Response 200 (Body body)" and "unmarshal body = Inr data"
    and "apiOrder = extractOrderFromJSON groupsRange body ''api''"
    and "uiOrder = extractOrderFromJSON groupsRange body ''ui''"
    and "after = instances (monitorOf (updateInstances groupsRange unmarshal resp m))"
    and "nApi = length (apiWalk data apiOrder 0)"
    and "apiFound = int (length (filter (\<lambda>grp. API data grp \<noteq> None) apiOrder))"
    and "uiFound = int (length (filter (\<lambda>grp. UI data grp \<noteq> None) uiOrder))"
  shows "sorted (map GroupOrder after)
    \<and> (\<forall>i j. i < j \<and> j < length after \<and> (j < nApi \<or> nApi \<le> i) \<longrightarrow>
          (GroupOrder (after ! i) < GroupOrder (after ! j)
             \<longleftrightarrow> Group (after ! i) \<noteq> Group (after ! j)))
    \<and> (\<forall>i j. i < nApi \<and> nApi \<le> j \<and> j < length after \<longrightarrow>
          GroupOrder (after ! i) < GroupOrder (after ! j))
    \<and> (\<forall>i. i < length after \<longrightarrow>
          (if i < nApi
           then Group (after ! i) \<in> set apiOrder
                \<and> 0 \<le> GroupOrder (after ! i) \<and> GroupOrder (after ! i) < apiFound
           else Group (after ! i) \<in> set uiOrder
                \<and> apiFound \<le> GroupOrder (after ! i)
                \<and> GroupOrder (after ! i) < apiFound + uiFound))"
proof -
  let ?A = "apiWalk data apiOrder 0"
  let ?U = "uiWalk data uiOrder apiFound"
  let ?occs = "?A @ ?U"
  have occs: "specWalk data apiOrder uiOrder = ?occs"
    by (simp add: specWalk_def assms(7))
  have "after = assignIndex (specPlace (lastTracked (instances m))
      (specWalk data apiOrder uiOrder))"
    unfolding assms(3,4,5) using assms(1,2) by (rule updateInstances_instances)
  then have after: "after = assignIndex (specPlace (lastTracked (instances m)) ?occs)"
    by (simp only: occs)
  have len: "length after = length ?occs"
    by (simp add: after length_assignIndex length_specPlace)
  have go: "map GroupOrder after = map oOrder ?occs"
    by (simp only: after assignIndex_GroupOrder specPlace_GroupOrder)
  have gr: "map Group after = map oGroup ?occs"
    by (simp only: after assignIndex_Group specPlace_Group)
  have go_nth: "GroupOrder (after ! i) = oOrder (?occs ! i)" if "i < length after" for i
  proof -
    have "GroupOrder (after ! i) = map GroupOrder after ! i" using that by simp
    also have "\<dots> = map oOrder ?occs ! i" by (simp only: go)
    also have "\<dots> = oOrder (?occs ! i)" by (rule nth_map) (use that len in simp)
    finally show ?thesis .
  qed
  have gr_nth: "Group (after ! i) = oGroup (?occs ! i)" if "i < length after" for i
  proof -
    have "Group (after ! i) = map Group after ! i" using that by simp
    also have "\<dots> = map oGroup ?occs ! i" by (simp only: gr)
    also have "\<dots> = oGroup (?occs ! i)" by (rule nth_map) (use that len in simp)
    finally show ?thesis .
  qed
  have dA: "distinct apiOrder" and dU: "distinct uiOrder"
    by (simp_all add: assms(3,4) extractOrderFromJSON_distinct)
  have sA: "sorted_wrt sameOrLater ?A" using dA by (rule apiWalk_sameOrLater)
  have sU: "sorted_wrt sameOrLater ?U" using dU by (rule uiWalk_sameOrLater)
  have bA: "0 \<le> oOrder a \<and> oOrder a < apiFound \<and> oGroup a \<in> set apiOrder" if "a \<in> set ?A" for a
    using apiWalk_bounds [OF that] by (simp add: assms(7))
  have bU: "apiFound \<le> oOrder u \<and> oOrder u < apiFound + uiFound \<and> oGroup u \<in> set uiOrder"
    if "u \<in> set ?U" for u
    using uiWalk_bounds [OF that] by (simp add: assms(8))
  have nA: "nApi = length ?A" by (rule assms(6))
  have inA: "?occs ! i = ?A ! i \<and> ?A ! i \<in> set ?A" if "i < nApi" for i
    using that by (simp add: nA nth_append)
  have inU: "?occs ! i = ?U ! (i - nApi) \<and> ?U ! (i - nApi) \<in> set ?U"
    if "nApi \<le> i" "i < length after" for i
    using that len by (simp add: nA nth_append)
  have sorted: "sorted (map GroupOrder after)"
  proof -
    have "sorted (map oOrder ?A)" using sA by (rule sorted_wrt_sameOrLater_sorted)
    moreover have "sorted (map oOrder ?U)" using sU by (rule sorted_wrt_sameOrLater_sorted)
    moreover have "x \<le> y" if "x \<in> set (map oOrder ?A)" "y \<in> set (map oOrder ?U)" for x y
    proof -
      from that obtain a u where "a \<in> set ?A" "x = oOrder a" "u \<in> set ?U" "y = oOrder u"
        by auto
      with bA [of a] bU [of u] show ?thesis by simp
    qed
    ultimately have "sorted (map oOrder ?A @ map oOrder ?U)"
      by (simp only: sorted_append) blast
    then show ?thesis by (simp only: go map_append)
  qed
  have within: "GroupOrder (after ! i) < GroupOrder (after ! j)
             \<longleftrightarrow> Group (after ! i) \<noteq> Group (after ! j)"
    if "i < j" "j < length after" "j < nApi \<or> nApi \<le> i" for i j
  proof -
    from that have i: "i < length after" by simp
    from that(3) show ?thesis
    proof
      assume j: "j < nApi"
      with that(1) have "i < nApi" by simp
      with j inA [of i] inA [of j] sameOrLater_nth [OF sA that(1)] nA
      show ?thesis by (simp add: go_nth gr_nth i that(2))
    next
      assume n: "nApi \<le> i"
      with that(1) have "nApi \<le> j" by simp
      moreover from that n have "i - nApi < j - nApi" by simp
      moreover from that(2) len \<open>nApi \<le> j\<close> have "j - nApi < length ?U"
        by (simp add: nA)
      ultimately show ?thesis
        using n inU [of i] inU [of j] sameOrLater_nth [OF sU, of "i - nApi" "j - nApi"] i that(2)
        by (simp add: go_nth gr_nth)
    qed
  qed
  have across: "GroupOrder (after ! i) < GroupOrder (after ! j)"
    if "i < nApi" "nApi \<le> j" "j < length after" for i j
  proof -
    from that len have i: "i < length after" by (simp add: nA)
    from inA [OF that(1)] bA [of "?A ! i"] have "oOrder (?occs ! i) < apiFound" by simp
    moreover from inU [OF that(2,3)] bU [of "?U ! (j - nApi)"]
    have "apiFound \<le> oOrder (?occs ! j)" by simp
    ultimately show ?thesis by (simp add: go_nth i that(3))
  qed
  have numbered: "if i < nApi
           then Group (after ! i) \<in> set apiOrder
                \<and> 0 \<le> GroupOrder (after ! i) \<and> GroupOrder (after ! i) < apiFound
           else Group (after ! i) \<in> set uiOrder
                \<and> apiFound \<le> GroupOrder (after ! i)
                \<and> GroupOrder (after ! i) < apiFound + uiFound"
    if "i < length after" for i
  proof (cases "i < nApi")
    case True
    with inA [OF True] bA [of "?A ! i"] show ?thesis
      by (simp add: go_nth gr_nth that)
  next
    case False
    then have "nApi \<le> i" by simp
    from inU [OF this that] bU [of "?U ! (i - nApi)"] False show ?thesis
      by (simp add: go_nth gr_nth that)
  qed
  from sorted within across numbered show ?thesis by blast
qed

lemma after_payloadGroups:
  "instances (monitorOf (updateInstances exampleGroups exampleUnmarshal
      (Response 200 (Body payloadGroups)) twiceRegistry))
   = [\<lparr>Group = ''beta'', URL = ''https://a.io'', InstanceType = ''api'', Cors = True,
        GroupOrder = 0, Index = 1, Checks = [exampleTimeout]\<rparr>,
      \<lparr>Group = ''beta'', URL = ''https://b.io'', InstanceType = ''api'', Cors = True,
        GroupOrder = 0, Index = 2, Checks = []\<rparr>,
      \<lparr>Group = ''alpha'', URL = ''https://c.io'', InstanceType = ''api'', Cors = False,
        GroupOrder = 1, Index = 3, Checks = []\<rparr>,
      \<lparr>Group = ''web'', URL = ''https://w.io'', InstanceType = ''ui'', Cors = False,
        GroupOrder = 2, Index = 4, Checks = []\<rparr>,
      \<lparr>Group = ''web'', URL = ''https://a.io'', InstanceType = ''ui'', Cors = False,
        GroupOrder = 2, Index = 5, Checks = []\<rparr>]"
  by (simp add: twiceRegistry_eq updateInstances_def order_payloadGroups unmarshal_payloadGroups)
     (simp add: eval_defs dataGroups_def)

lemma apiWalk_payloadGroups: "length (apiWalk dataGroups [''beta'', ''alpha''] 0) = 3"
  by (simp add: dataGroups_def)

theorem group_order_increases_witness:
  "exampleUnmarshal payloadGroups = Inr dataGroups
   \<and> sorted (map GroupOrder (instances (monitorOf (updateInstances exampleGroups
         exampleUnmarshal (Response 200 (Body payloadGroups)) twiceRegistry))))
   \<and> GroupOrder (instances (monitorOf (updateInstances exampleGroups
         exampleUnmarshal (Response 200 (Body payloadGroups)) twiceRegistry)) ! 1)
       < GroupOrder (instances (monitorOf (updateInstances exampleGroups
         exampleUnmarshal (Response 200 (Body payloadGroups)) twiceRegistry)) ! 2)
   \<and> GroupOrder (instances (monitorOf (updateInstances exampleGroups
         exampleUnmarshal (Response 200 (Body payloadGroups)) twiceRegistry)) ! 2)
       < GroupOrder (instances (monitorOf (updateInstances exampleGroups
         exampleUnmarshal (Response 200 (Body payloadGroups)) twiceRegistry)) ! 3)"
proof -
  let ?after = "instances (monitorOf (updateInstances exampleGroups
         exampleUnmarshal (Response 200 (Body payloadGroups)) twiceRegistry))"
  note t = group_order_increases [where resp = "Response 200 (Body payloadGroups)"
      and body = payloadGroups and unmarshal = exampleUnmarshal and groupsRange = exampleGroups
      and m = twiceRegistry, OF refl unmarshal_payloadGroups refl refl refl refl refl refl,
      unfolded order_payloadGroups apiWalk_payloadGroups]
  from t have s: "sorted (map GroupOrder ?after)" by (rule conjunct1)
  from t [THEN conjunct2, THEN conjunct1, THEN spec, THEN spec, of 1 2]
  have w: "GroupOrder (?after ! 1) < GroupOrder (?after ! 2)"
    by (simp add: after_payloadGroups)
  from t [THEN conjunct2, THEN conjunct2, THEN conjunct1, THEN spec, THEN spec, of 2 3]
  have a: "GroupOrder (?after ! 2) < GroupOrder (?after ! 3)"
    by (simp add: after_payloadGroups)
  from unmarshal_payloadGroups s w a show ?thesis by (intro conjI)
qed

end
